theory Spec2Isabelle
  imports Complex_Main "HOL-Library.Log_Nat"
begin

section \<open>Array elements\<close>

text \<open>
  The notebook computes on float32 tensors. An element is modelled as a real number or one
  of the three special values the code itself produces or has to survive: the paddings
  \<open>-np.inf\<close> and \<open>np.inf\<close>, and the not-a-number that arithmetic on infinities yields.
  Arithmetic on finite elements is exact real arithmetic: rounding, overflow to infinity and
  the sign of zero are not part of the model. On the special values the operations follow
  IEEE 754: an infinity absorbs finite summands and factors, \<open>inf - inf\<close>, \<open>0 * inf\<close>,
  \<open>inf / inf\<close> and \<open>0 / 0\<close> are not-a-number, a finite number divided by an infinity is zero,
  a non-zero number divided by zero is an infinity, and not-a-number propagates through
  every operation.
\<close>

datatype fl = NegInf | Fin real | PosInf | NaN

fun fl_add :: "fl \<Rightarrow> fl \<Rightarrow> fl" where
  "fl_add NaN y = NaN"
| "fl_add x NaN = NaN"
| "fl_add (Fin a) (Fin b) = Fin (a + b)"
| "fl_add (Fin a) y = y"
| "fl_add x (Fin b) = x"
| "fl_add PosInf PosInf = PosInf"
| "fl_add NegInf NegInf = NegInf"
| "fl_add PosInf NegInf = NaN"
| "fl_add NegInf PosInf = NaN"

fun fl_neg :: "fl \<Rightarrow> fl" where
  "fl_neg NaN = NaN"
| "fl_neg (Fin a) = Fin (- a)"
| "fl_neg PosInf = NegInf"
| "fl_neg NegInf = PosInf"

definition fl_sub :: "fl \<Rightarrow> fl \<Rightarrow> fl" where
  "fl_sub x y = fl_add x (fl_neg y)"

definition signed_inf :: "bool \<Rightarrow> fl" where
  "signed_inf positive = (if positive then PosInf else NegInf)"

fun fl_mul :: "fl \<Rightarrow> fl \<Rightarrow> fl" where
  "fl_mul NaN y = NaN"
| "fl_mul x NaN = NaN"
| "fl_mul (Fin a) (Fin b) = Fin (a * b)"
| "fl_mul (Fin a) PosInf = (if a = 0 then NaN else signed_inf (0 < a))"
| "fl_mul (Fin a) NegInf = (if a = 0 then NaN else signed_inf (a < 0))"
| "fl_mul PosInf (Fin b) = (if b = 0 then NaN else signed_inf (0 < b))"
| "fl_mul NegInf (Fin b) = (if b = 0 then NaN else signed_inf (b < 0))"
| "fl_mul PosInf PosInf = PosInf"
| "fl_mul NegInf NegInf = PosInf"
| "fl_mul PosInf NegInf = NegInf"
| "fl_mul NegInf PosInf = NegInf"

fun fl_div :: "fl \<Rightarrow> fl \<Rightarrow> fl" where
  "fl_div NaN y = NaN"
| "fl_div x NaN = NaN"
| "fl_div (Fin a) (Fin b) =
     (if b = 0 then (if a = 0 then NaN else signed_inf (0 < a)) else Fin (a / b))"
| "fl_div (Fin a) PosInf = Fin 0"
| "fl_div (Fin a) NegInf = Fin 0"
| "fl_div PosInf (Fin b) = signed_inf (0 \<le> b)"
| "fl_div NegInf (Fin b) = signed_inf (b < 0)"
| "fl_div PosInf PosInf = NaN"
| "fl_div NegInf NegInf = NaN"
| "fl_div PosInf NegInf = NaN"
| "fl_div NegInf PosInf = NaN"

fun fl_exp :: "fl \<Rightarrow> fl" where
  "fl_exp NaN = NaN"
| "fl_exp (Fin a) = Fin (exp a)"
| "fl_exp PosInf = PosInf"
| "fl_exp NegInf = Fin 0"

fun fl_max :: "fl \<Rightarrow> fl \<Rightarrow> fl" where
  "fl_max NaN y = NaN"
| "fl_max x NaN = NaN"
| "fl_max (Fin a) (Fin b) = Fin (max a b)"
| "fl_max PosInf y = PosInf"
| "fl_max x PosInf = PosInf"
| "fl_max NegInf y = y"
| "fl_max x NegInf = x"

section \<open>Tensors, errors and the tensor operations the notebook calls\<close>

type_synonym vec = "fl list"
type_synonym mat = "fl list list"
type_synonym ten = "fl list list list"

datatype error = InvalidArgument

definition bind_result :: "error + 'a \<Rightarrow> ('a \<Rightarrow> error + 'b) \<Rightarrow> error + 'b" where
  "bind_result r f = (case r of Inl e \<Rightarrow> Inl e | Inr x \<Rightarrow> f x)"

fun sequence :: "(error + 'a) list \<Rightarrow> error + 'a list" where
  "sequence [] = Inr []"
| "sequence (r # rs) =
     (case r of Inl e \<Rightarrow> Inl e
      | Inr x \<Rightarrow> (case sequence rs of Inl e \<Rightarrow> Inl e | Inr xs \<Rightarrow> Inr (x # xs)))"

text \<open>
  Broadcasting along one axis, as every elementwise binary operation of the array library
  does: equal sizes pair up, a size of one is stretched, any other pair of sizes is an
  error.
\<close>

definition broadcast :: "('a \<Rightarrow> 'b \<Rightarrow> error + 'c) \<Rightarrow> 'a list \<Rightarrow> 'b list \<Rightarrow> error + 'c list" where
  "broadcast f xs ys =
     (if length xs = length ys then sequence (map2 f xs ys)
      else if length xs = 1 then sequence (map (f (hd xs)) ys)
      else if length ys = 1 then sequence (map (\<lambda>x. f x (hd ys)) xs)
      else Inl InvalidArgument)"

definition elementwise2 :: "(fl \<Rightarrow> fl \<Rightarrow> fl) \<Rightarrow> mat \<Rightarrow> mat \<Rightarrow> error + mat" where
  "elementwise2 op = broadcast (broadcast (\<lambda>a b. Inr (op a b)))"

definition elementwise3 :: "(fl \<Rightarrow> fl \<Rightarrow> fl) \<Rightarrow> ten \<Rightarrow> ten \<Rightarrow> error + ten" where
  "elementwise3 op = broadcast (broadcast (broadcast (\<lambda>a b. Inr (op a b))))"

text \<open>\<open>tf.pad(x, [[0, 0], [before, after]], constant_values=v)\<close>: negative paddings are rejected.\<close>

definition tf_pad :: "mat \<Rightarrow> int \<Rightarrow> int \<Rightarrow> fl \<Rightarrow> error + mat" where
  "tf_pad x before after v =
     (if before < 0 \<or> after < 0 then Inl InvalidArgument
      else Inr (map (\<lambda>row. replicate (nat before) v @ row @ replicate (nat after) v) x))"

text \<open>\<open>tf.ones\<close> of a given length, and of the shape \<open>(batch, seq_len, n)\<close> read off a matrix.\<close>

definition tf_ones :: "nat \<Rightarrow> vec" where
  "tf_ones n = replicate n (Fin 1)"

definition tf_ones_like3 :: "mat \<Rightarrow> nat \<Rightarrow> ten" where
  "tf_ones_like3 x n = map (map (\<lambda>_. tf_ones n)) x"

text \<open>\<open>tf.reduce_sum\<close> over the last axis; the accumulation starts from zero.\<close>

definition reduce_sum :: "vec \<Rightarrow> fl" where
  "reduce_sum xs = foldl fl_add (Fin 0) xs"

text \<open>
  \<open>tf.nn.conv1d(x, filters, 1, padding='VALID')\<close> with one input and one output channel
  (the channel axis that the notebook adds and removes again is left out).
\<close>

definition conv1d_valid :: "mat \<Rightarrow> vec \<Rightarrow> mat" where
  "conv1d_valid x filters =
     map (\<lambda>row. map (\<lambda>j. reduce_sum (map2 fl_mul (take (length filters) (drop j row)) filters))
                     [0 ..< length row + 1 - length filters]) x"

text \<open>The maximum of a window, and of a whole row (\<open>tf.reduce_max\<close>, \<open>-inf\<close> on an empty row).\<close>

fun max_list :: "vec \<Rightarrow> fl" where
  "max_list [] = NegInf"
| "max_list (x # xs) = foldl fl_max x xs"

text \<open>\<open>tf.nn.max_pool(x, [1, 1, w, 1], [1, 1, 1, 1], 'VALID')\<close> on the sequence axis.\<close>

definition max_pool_valid :: "mat \<Rightarrow> nat \<Rightarrow> mat" where
  "max_pool_valid x w =
     map (\<lambda>row. map (\<lambda>j. max_list (take w (drop j row))) [0 ..< length row + 1 - w]) x"

text \<open>\<open>tf.reduce_max(x, 1, keepdims=True)\<close>.\<close>

definition reduce_max_keepdims :: "mat \<Rightarrow> mat" where
  "reduce_max_keepdims x = map (\<lambda>row. [max_list row]) x"

text \<open>\<open>tf.expand_dims(x, -1)\<close>.\<close>

definition expand_dims :: "mat \<Rightarrow> ten" where
  "expand_dims x = map (map (\<lambda>v. [v])) x"

text \<open>
  \<open>tf.contrib.signal.frame(signal, frame_length, 1, pad_end, pad_value)\<close> on the last axis,
  with the frame step 1 of every call in the notebook: frame \<open>j\<close> is
  \<open>signal[j : j + frame_length]\<close>. Without \<open>pad_end\<close> only the complete frames are produced;
  with it there is one frame per position, completed at the end with \<open>pad_value\<close>.
\<close>

definition frame :: "mat \<Rightarrow> nat \<Rightarrow> bool \<Rightarrow> fl \<Rightarrow> ten" where
  "frame signal frame_length pad_end pad_value =
     map (\<lambda>row.
       if pad_end
       then map (\<lambda>j. take frame_length (drop j (row @ replicate (frame_length - 1) pad_value)))
                [0 ..< length row]
       else map (\<lambda>j. take frame_length (drop j row)) [0 ..< length row + 1 - frame_length])
     signal"

section \<open>The four functions of the notebook\<close>

definition moving_sum :: "mat \<Rightarrow> int \<Rightarrow> int \<Rightarrow> error + mat" where
  "moving_sum x back forward =
     bind_result (tf_pad x back forward (Fin 0)) (\<lambda>x_padded.
       let filters = tf_ones (nat (back + forward + 1));
           x_sum = conv1d_valid x_padded filters
       in Inr x_sum)"

text \<open>The stability floor \<open>1e-5\<close> of the efficient variant.\<close>

definition clamp_floor :: real where
  "clamp_floor = 1 / 100000"

text \<open>The first three statements of \<open>efficient_chunkwise_attention\<close>: shift, exponentiate, clamp.\<close>

definition efficient_softmax_exp :: "mat \<Rightarrow> error + mat" where
  "efficient_softmax_exp softmax_logits =
     bind_result (elementwise2 fl_sub softmax_logits (reduce_max_keepdims softmax_logits))
       (\<lambda>softmax_logits.
          let softmax_exp = map (map fl_exp) softmax_logits;
              softmax_exp = map (map (\<lambda>v. fl_max v (Fin clamp_floor))) softmax_exp
          in Inr softmax_exp)"

text \<open>The chunkwise softmax denominators of the efficient variant.\<close>

definition efficient_softmax_denominators :: "int \<Rightarrow> mat \<Rightarrow> error + mat" where
  "efficient_softmax_denominators chunk_size softmax_logits =
     bind_result (efficient_softmax_exp softmax_logits) (\<lambda>softmax_exp.
       moving_sum softmax_exp (chunk_size - 1) 0)"

definition efficient_chunkwise_attention :: "int \<Rightarrow> mat \<Rightarrow> mat \<Rightarrow> error + mat" where
  "efficient_chunkwise_attention chunk_size emit_probs softmax_logits =
     bind_result (efficient_softmax_exp softmax_logits) (\<lambda>softmax_exp.
     bind_result (moving_sum softmax_exp (chunk_size - 1) 0) (\<lambda>softmax_denominators.
     bind_result (elementwise2 fl_div emit_probs softmax_denominators) (\<lambda>quotient.
     bind_result (moving_sum quotient 0 (chunk_size - 1)) (\<lambda>summed.
       elementwise2 fl_mul softmax_exp summed))))"

definition moving_max :: "mat \<Rightarrow> int \<Rightarrow> error + mat" where
  "moving_max x w =
     bind_result (tf_pad x (w - 1) 0 NegInf) (\<lambda>x.
       Inr (max_pool_valid x (nat w)))"

definition stable_chunkwise_attention :: "int \<Rightarrow> mat \<Rightarrow> mat \<Rightarrow> error + mat" where
  "stable_chunkwise_attention chunk_size emit_probs softmax_logits =
     bind_result (moving_max softmax_logits chunk_size) (\<lambda>logits_max.
     bind_result (tf_pad softmax_logits (chunk_size - 1) 0 NegInf) (\<lambda>padded_logits.
     let framed_logits = frame padded_logits (nat chunk_size) False (Fin 0) in
     bind_result (elementwise3 fl_sub framed_logits (expand_dims logits_max)) (\<lambda>framed_logits.
     let softmax_denominators = map (map (\<lambda>fr. reduce_sum (map fl_exp fr))) framed_logits;
         framed_denominators = frame softmax_denominators (nat chunk_size) True PosInf in
     bind_result (elementwise3 fl_mul (expand_dims softmax_logits)
                    (tf_ones_like3 softmax_logits (nat chunk_size))) (\<lambda>copied_logits.
     let framed_max = frame logits_max (nat chunk_size) True PosInf in
     bind_result (elementwise3 fl_sub copied_logits framed_max) (\<lambda>copied_logits.
     let softmax_numerators = map (map (map fl_exp)) copied_logits;
         framed_probs = frame emit_probs (nat chunk_size) True (Fin 0) in
     bind_result (elementwise3 fl_mul framed_probs softmax_numerators) (\<lambda>product.
     bind_result (elementwise3 fl_div product framed_denominators) (\<lambda>terms.
       Inr (map (map reduce_sum) terms))))))))"

section \<open>Real-valued arrays\<close>

text \<open>The inputs of the data model are arrays of real numbers; \<open>lift\<close> embeds them.\<close>

definition lift :: "real list list \<Rightarrow> mat" where
  "lift x = map (map Fin) x"


definition shape :: "'a list list \<Rightarrow> nat list" where
  "shape x = map length x"

section \<open>Reference definitions, in the words of the specification\<close>

text \<open>
  The in-range part of \<open>r[j - back .. j + forward]\<close>: positions before the start or after the
  end of the row are left out.
\<close>

definition window :: "'a list \<Rightarrow> nat \<Rightarrow> nat \<Rightarrow> nat \<Rightarrow> 'a list" where
  "window r j back forward = drop (j - back) (take (j + forward + 1) r)"

text \<open>Entry \<open>[i, j]\<close> is the sum of \<open>x[i, j - back .. j + forward]\<close>, out-of-range entries being zero.\<close>

definition moving_sum_spec :: "real list list \<Rightarrow> nat \<Rightarrow> nat \<Rightarrow> real list list" where
  "moving_sum_spec x back forward =
     map (\<lambda>r. map (\<lambda>j. sum_list (window r j back forward)) [0 ..< length r]) x"

text \<open>Entry \<open>[i, j]\<close> is the maximum of the in-range part of \<open>x[i, j - w + 1 .. j]\<close>.\<close>

definition moving_max_spec :: "real list list \<Rightarrow> nat \<Rightarrow> real list list" where
  "moving_max_spec x w =
     map (\<lambda>r. map (\<lambda>j. Max (set (window r j (w - 1) 0))) [0 ..< length r]) x"

section \<open>Tables\<close>

text \<open>
  An array given by its row lengths and a function of the row and column index. The proofs
  describe every intermediate array of the two attention functions in this form.
\<close>

definition tab :: "nat list \<Rightarrow> (nat \<Rightarrow> nat \<Rightarrow> 'a) \<Rightarrow> 'a list list" where
  "tab sh F = map (\<lambda>i. map (F i) [0 ..< sh ! i]) [0 ..< length sh]"

section \<open>The two attention functions on real rows\<close>

text \<open>
  What \<open>efficient_chunkwise_attention\<close> computes on a real row \<open>u\<close> of logits and a real row
  \<open>a\<close> of emit probabilities, with \<open>n = chunk_size - 1\<close>: the clamped exponential of the
  shifted logit at position \<open>l\<close>, the softmax denominator at position \<open>k\<close> (the sum over the
  window of length \<open>chunk_size\<close> of the row padded with \<open>n\<close> zeros on the left), and the
  output at position \<open>j\<close> (the window of the quotients padded with \<open>n\<close> zeros on the right).
  Lemma \<open>efficient_lift\<close> below proves that the function returns exactly these numbers.
\<close>

definition efficient_exp_row :: "real list \<Rightarrow> nat \<Rightarrow> real" where
  "efficient_exp_row u l = max (exp (u ! l - Max (set u))) clamp_floor"

definition efficient_den_row :: "nat \<Rightarrow> real list \<Rightarrow> nat \<Rightarrow> real" where
  "efficient_den_row n u k =
     sum_list (map (\<lambda>t. if n \<le> k + t \<and> k + t < n + length u
                         then efficient_exp_row u (k + t - n) else 0) [0 ..< Suc n])"

definition efficient_row :: "nat \<Rightarrow> real list \<Rightarrow> real list \<Rightarrow> nat \<Rightarrow> real" where
  "efficient_row n a u j =
     efficient_exp_row u j *
     sum_list (map (\<lambda>t. if j + t < length u
                         then a ! (j + t) / efficient_den_row n u (j + t) else 0) [0 ..< Suc n])"

definition efficient_real :: "nat \<Rightarrow> real list list \<Rightarrow> real list list \<Rightarrow> real list list" where
  "efficient_real n a u = tab (shape u) (\<lambda>i j. efficient_row n (a ! i) (u ! i) j)"

text \<open>
  The same for \<open>stable_chunkwise_attention\<close>: the maximum of the chunk that ends at position
  \<open>k\<close>, the softmax denominator of that chunk (its frame is padded with \<open>-inf\<close>, whose
  exponential is zero), and the output at position \<open>j\<close>, a sum over the chunks that contain
  \<open>j\<close> (frames padded at the end contribute zero). Lemma \<open>stable_lift\<close> below proves that the
  function returns exactly these numbers.
\<close>

definition stable_max_row :: "nat \<Rightarrow> real list \<Rightarrow> nat \<Rightarrow> real" where
  "stable_max_row n u k = Max (set (window u k n 0))"

definition stable_den_row :: "nat \<Rightarrow> real list \<Rightarrow> nat \<Rightarrow> real" where
  "stable_den_row n u k =
     sum_list (map (\<lambda>t. if n \<le> k + t \<and> k + t < n + length u
                         then exp (u ! (k + t - n) - stable_max_row n u k) else 0) [0 ..< Suc n])"

definition stable_row :: "nat \<Rightarrow> real list \<Rightarrow> real list \<Rightarrow> nat \<Rightarrow> real" where
  "stable_row n a u j =
     sum_list (map (\<lambda>t. if j + t < length u
                         then a ! (j + t) * exp (u ! j - stable_max_row n u (j + t))
                              / stable_den_row n u (j + t)
                         else 0) [0 ..< Suc n])"

definition stable_real :: "nat \<Rightarrow> real list list \<Rightarrow> real list list \<Rightarrow> real list list" where
  "stable_real n a u = tab (shape u) (\<lambda>i j. stable_row n (a ! i) (u ! i) j)"

text \<open>
  The two tensors that the stable variant derives from the logits alone, before
  \<open>emit_probs\<close> enters the computation.
\<close>

definition stable_numerators :: "nat \<Rightarrow> real list list \<Rightarrow> ten" where
  "stable_numerators n u =
     tab (shape u) (\<lambda>i j. map (\<lambda>t. if j + t < length (u ! i)
                                     then Fin (exp (u ! i ! j - stable_max_row n (u ! i) (j + t)))
                                     else Fin 0) [0 ..< Suc n])"

definition stable_framed_denominators :: "nat \<Rightarrow> real list list \<Rightarrow> ten" where
  "stable_framed_denominators n u =
     tab (shape u) (\<lambda>i j. map (\<lambda>t. if j + t < length (u ! i)
                                     then Fin (stable_den_row n (u ! i) (j + t))
                                     else PosInf) [0 ..< Suc n])"

section \<open>Notions used to state the claims\<close>

text \<open>Adding the constant \<open>c i\<close> to every logit of batch row \<open>i\<close>.\<close>

definition add_row_constant :: "(nat \<Rightarrow> real) \<Rightarrow> real list list \<Rightarrow> real list list" where
  "add_row_constant c u = map (\<lambda>i. map (\<lambda>v. v + c i) (u ! i)) [0 ..< length u]"

text \<open>The sum of two real arrays of the same shape, and the product of a scalar and an array.\<close>

definition matrix_add :: "real list list \<Rightarrow> real list list \<Rightarrow> real list list" where
  "matrix_add x y = map2 (map2 (+)) x y"

definition matrix_scale :: "real \<Rightarrow> real list list \<Rightarrow> real list list" where
  "matrix_scale c x = map (map ((*) c)) x"

text \<open>
  The logits have a small dynamic range when the clamp of the efficient variant never
  activates: every shifted exponential is at least the floor already.
\<close>

definition small_dynamic_range :: "real list list \<Rightarrow> bool" where
  "small_dynamic_range u =
     list_all (\<lambda>row. list_all (\<lambda>v. clamp_floor \<le> exp (v - Max (set row))) row) u"

text \<open>
  A (batch, T) array, and the sizes of one axis that broadcasting can reconcile.
\<close>

definition rectangular :: "nat \<Rightarrow> nat \<Rightarrow> 'a list list \<Rightarrow> bool" where
  "rectangular batch seq_len x \<longleftrightarrow> length x = batch \<and> list_all (\<lambda>row. length row = seq_len) x"

definition broadcastable :: "nat \<Rightarrow> nat \<Rightarrow> bool" where
  "broadcastable m n \<longleftrightarrow> m = n \<or> m = 1 \<or> n = 1"

section \<open>float32 rounding\<close>

text \<open>
  The finite float32 numbers are the multiples \<open>m * 2\<^sup>e\<^sup>-\<^sup>2\<^sup>3\<close> with \<open>\<bar>m\<bar> < 2\<^sup>2\<^sup>4\<close> and
  \<open>-126 \<le> e \<le> 127\<close>. \<open>round_even\<close> is the nearest integer, a tie going to the even one;
  \<open>exponent x\<close> is the integer \<open>e\<close> with \<open>2\<^sup>e \<le> \<bar>x\<bar> < 2\<^sup>e\<^sup>+\<^sup>1\<close>; \<open>f32 x\<close> is the float32 nearest
  to the real \<open>x\<close> (round to nearest, ties to even, gradual underflow below \<open>2\<^sup>-\<^sup>1\<^sup>2\<^sup>6\<close>,
  overflow to an infinity), and \<open>fl_round\<close> rounds a finite element and leaves the special
  values alone. A float32 operation is the exact operation followed by \<open>fl_round\<close>.
\<close>

definition round_even :: "real \<Rightarrow> int" where
  "round_even x =
     (let f = \<lfloor>x\<rfloor>; d = x - of_int f
      in if d < 1 / 2 then f else if 1 / 2 < d then f + 1 else if even f then f else f + 1)"

definition exponent :: "real \<Rightarrow> int" where
  "exponent x =
     (if 1 \<le> \<bar>x\<bar> then bitlen \<lfloor>\<bar>x\<bar>\<rfloor> - 1 else - bitlen (\<lceil>1 / \<bar>x\<bar>\<rceil> - 1))"

definition f32 :: "real \<Rightarrow> fl" where
  "f32 x =
     (if x = 0 then Fin 0
      else let q = 2 powi (max (exponent x) (- 126) - 23);
               r = of_int (round_even (x / q)) * q
           in if 2 powi 128 \<le> \<bar>r\<bar> then signed_inf (0 < x) else Fin r)"

fun fl_round :: "fl \<Rightarrow> fl" where
  "fl_round (Fin a) = f32 a"
| "fl_round x = x"

text \<open>A real number that is a float32 number.\<close>

definition is_f32 :: "real \<Rightarrow> bool" where
  "is_f32 x \<longleftrightarrow> f32 x = Fin x"

section \<open>The four functions with rounded arithmetic\<close>

text \<open>
  The four functions once more, statement by statement as above, with the result of every
  addition, subtraction, multiplication, division and exponential, and the literal \<open>1e-5\<close>,
  passed through a rounding function \<open>rnd\<close>. With the identity for \<open>rnd\<close> these are the
  functions above; with \<open>fl_round\<close> they compute in float32. Taking a maximum, padding and
  framing involve no arithmetic. Sums accumulate from left to right, and the exponential is
  taken to be correctly rounded.
\<close>

definition rounded :: "(fl \<Rightarrow> fl) \<Rightarrow> (fl \<Rightarrow> fl \<Rightarrow> fl) \<Rightarrow> fl \<Rightarrow> fl \<Rightarrow> fl" where
  "rounded rnd op a b = rnd (op a b)"

definition reduce_sum_rnd :: "(fl \<Rightarrow> fl) \<Rightarrow> vec \<Rightarrow> fl" where
  "reduce_sum_rnd rnd xs = foldl (rounded rnd fl_add) (Fin 0) xs"

definition conv1d_valid_rnd :: "(fl \<Rightarrow> fl) \<Rightarrow> mat \<Rightarrow> vec \<Rightarrow> mat" where
  "conv1d_valid_rnd rnd x filters =
     map (\<lambda>row. map (\<lambda>j. reduce_sum_rnd rnd
                            (map2 (rounded rnd fl_mul) (take (length filters) (drop j row)) filters))
                     [0 ..< length row + 1 - length filters]) x"

definition moving_sum_rnd :: "(fl \<Rightarrow> fl) \<Rightarrow> mat \<Rightarrow> int \<Rightarrow> int \<Rightarrow> error + mat" where
  "moving_sum_rnd rnd x back forward =
     bind_result (tf_pad x back forward (Fin 0)) (\<lambda>x_padded.
       let filters = tf_ones (nat (back + forward + 1));
           x_sum = conv1d_valid_rnd rnd x_padded filters
       in Inr x_sum)"

definition efficient_softmax_exp_rnd :: "(fl \<Rightarrow> fl) \<Rightarrow> mat \<Rightarrow> error + mat" where
  "efficient_softmax_exp_rnd rnd softmax_logits =
     bind_result (elementwise2 (rounded rnd fl_sub) softmax_logits
                    (reduce_max_keepdims softmax_logits))
       (\<lambda>softmax_logits.
          let softmax_exp = map (map (\<lambda>v. rnd (fl_exp v))) softmax_logits;
              softmax_exp = map (map (\<lambda>v. fl_max v (rnd (Fin clamp_floor)))) softmax_exp
          in Inr softmax_exp)"

definition efficient_chunkwise_attention_rnd ::
    "(fl \<Rightarrow> fl) \<Rightarrow> int \<Rightarrow> mat \<Rightarrow> mat \<Rightarrow> error + mat" where
  "efficient_chunkwise_attention_rnd rnd chunk_size emit_probs softmax_logits =
     bind_result (efficient_softmax_exp_rnd rnd softmax_logits) (\<lambda>softmax_exp.
     bind_result (moving_sum_rnd rnd softmax_exp (chunk_size - 1) 0) (\<lambda>softmax_denominators.
     bind_result (elementwise2 (rounded rnd fl_div) emit_probs softmax_denominators) (\<lambda>quotient.
     bind_result (moving_sum_rnd rnd quotient 0 (chunk_size - 1)) (\<lambda>summed.
       elementwise2 (rounded rnd fl_mul) softmax_exp summed))))"

definition stable_chunkwise_attention_rnd ::
    "(fl \<Rightarrow> fl) \<Rightarrow> int \<Rightarrow> mat \<Rightarrow> mat \<Rightarrow> error + mat" where
  "stable_chunkwise_attention_rnd rnd chunk_size emit_probs softmax_logits =
     bind_result (moving_max softmax_logits chunk_size) (\<lambda>logits_max.
     bind_result (tf_pad softmax_logits (chunk_size - 1) 0 NegInf) (\<lambda>padded_logits.
     let framed_logits = frame padded_logits (nat chunk_size) False (Fin 0) in
     bind_result (elementwise3 (rounded rnd fl_sub) framed_logits (expand_dims logits_max))
       (\<lambda>framed_logits.
     let softmax_denominators =
           map (map (\<lambda>fr. reduce_sum_rnd rnd (map (\<lambda>v. rnd (fl_exp v)) fr))) framed_logits;
         framed_denominators = frame softmax_denominators (nat chunk_size) True PosInf in
     bind_result (elementwise3 (rounded rnd fl_mul) (expand_dims softmax_logits)
                    (tf_ones_like3 softmax_logits (nat chunk_size))) (\<lambda>copied_logits.
     let framed_max = frame logits_max (nat chunk_size) True PosInf in
     bind_result (elementwise3 (rounded rnd fl_sub) copied_logits framed_max) (\<lambda>copied_logits.
     let softmax_numerators = map (map (map (\<lambda>v. rnd (fl_exp v)))) copied_logits;
         framed_probs = frame emit_probs (nat chunk_size) True (Fin 0) in
     bind_result (elementwise3 (rounded rnd fl_mul) framed_probs softmax_numerators) (\<lambda>product.
     bind_result (elementwise3 (rounded rnd fl_div) product framed_denominators) (\<lambda>terms.
       Inr (map (map (reduce_sum_rnd rnd)) terms))))))))"

text \<open>
  With rounded arithmetic: the softmax denominator of the chunk that ends at position \<open>k\<close> of
  a real row \<open>u\<close>, and the two tensors that the stable variant derives from the logits alone.
\<close>

definition stable_den_rnd :: "(fl \<Rightarrow> fl) \<Rightarrow> nat \<Rightarrow> real list \<Rightarrow> nat \<Rightarrow> fl" where
  "stable_den_rnd rnd n u k =
     reduce_sum_rnd rnd
       (map (\<lambda>t. rnd (fl_exp (rnd (fl_sub
                    (if n \<le> k + t \<and> k + t < n + length u then Fin (u ! (k + t - n)) else NegInf)
                    (Fin (stable_max_row n u k)))))) [0 ..< Suc n])"

definition stable_numerators_rnd :: "(fl \<Rightarrow> fl) \<Rightarrow> nat \<Rightarrow> real list list \<Rightarrow> ten" where
  "stable_numerators_rnd rnd n u =
     tab (shape u) (\<lambda>i j. map (\<lambda>t. rnd (fl_exp (rnd (fl_sub (Fin (u ! i ! j))
                                     (if j + t < length (u ! i)
                                      then Fin (stable_max_row n (u ! i) (j + t))
                                      else PosInf))))) [0 ..< Suc n])"

definition stable_framed_denominators_rnd :: "(fl \<Rightarrow> fl) \<Rightarrow> nat \<Rightarrow> real list list \<Rightarrow> ten" where
  "stable_framed_denominators_rnd rnd n u =
     tab (shape u) (\<lambda>i j. map (\<lambda>t. if j + t < length (u ! i)
                                     then stable_den_rnd rnd n (u ! i) (j + t)
                                     else PosInf) [0 ..< Suc n])"

text \<open>
  The size that broadcasting gives an axis, and a (batch, T, w) tensor.
\<close>

definition broadcast_size :: "nat \<Rightarrow> nat \<Rightarrow> nat" where
  "broadcast_size m n = (if m = 1 then n else m)"

definition rectangular3 :: "nat \<Rightarrow> nat \<Rightarrow> nat \<Rightarrow> 'a list list list \<Rightarrow> bool" where
  "rectangular3 batch seq_len w x \<longleftrightarrow>
     length x = batch \<and> list_all (\<lambda>row. length row = seq_len \<and> list_all (\<lambda>fr. length fr = w) row) x"

text \<open>
  The arguments of the four functions are tensors of any rank. Rank 1 stands for the arrays
  that are not 2-D; higher ranks are left out. \<open>tf.pad\<close> with the two-row paddings
  \<open>[[0, 0], [before, after]]\<close>, the first statement of \<open>moving_sum\<close> and of \<open>moving_max\<close>,
  rejects a tensor whose rank is not 2.
\<close>

datatype tensor = Rank1 vec | Rank2 mat

definition moving_sum_any :: "(fl \<Rightarrow> fl) \<Rightarrow> tensor \<Rightarrow> int \<Rightarrow> int \<Rightarrow> error + mat" where
  "moving_sum_any rnd x back forward =
     (case x of Rank1 v \<Rightarrow> Inl InvalidArgument | Rank2 m \<Rightarrow> moving_sum_rnd rnd m back forward)"

definition moving_max_any :: "tensor \<Rightarrow> int \<Rightarrow> error + mat" where
  "moving_max_any x w =
     (case x of Rank1 v \<Rightarrow> Inl InvalidArgument | Rank2 m \<Rightarrow> moving_max m w)"

text \<open>
  In \<open>efficient_chunkwise_attention\<close> the logits first meet \<open>tf.reduce_max(softmax_logits, 1)\<close>,
  and a tensor of rank 1 has no axis 1. \<open>emit_probs\<close> first meets the division by the 2-D
  denominators, and broadcasting aligns the last axes and gives an operand of rank 1 a
  leading axis of size 1: it is used as a single batch row.
\<close>

definition efficient_chunkwise_attention_any ::
    "(fl \<Rightarrow> fl) \<Rightarrow> int \<Rightarrow> tensor \<Rightarrow> tensor \<Rightarrow> error + mat" where
  "efficient_chunkwise_attention_any rnd chunk_size emit_probs softmax_logits =
     (case softmax_logits of
        Rank1 v \<Rightarrow> Inl InvalidArgument
      | Rank2 u \<Rightarrow>
          efficient_chunkwise_attention_rnd rnd chunk_size
            (case emit_probs of Rank1 e \<Rightarrow> [e] | Rank2 e \<Rightarrow> e) u)"

text \<open>
  In \<open>stable_chunkwise_attention\<close> the logits first meet \<open>moving_max\<close>, hence \<open>tf.pad\<close>.
  \<open>emit_probs\<close> is framed, which adds a last axis, and then multiplied with the 3-D
  numerators, where broadcasting again gives the frames of a rank-1 \<open>emit_probs\<close> a leading
  axis of size 1.
\<close>

definition stable_chunkwise_attention_any ::
    "(fl \<Rightarrow> fl) \<Rightarrow> int \<Rightarrow> tensor \<Rightarrow> tensor \<Rightarrow> error + mat" where
  "stable_chunkwise_attention_any rnd chunk_size emit_probs softmax_logits =
     (case softmax_logits of
        Rank1 v \<Rightarrow> Inl InvalidArgument
      | Rank2 u \<Rightarrow>
          stable_chunkwise_attention_rnd rnd chunk_size
            (case emit_probs of Rank1 e \<Rightarrow> [e] | Rank2 e \<Rightarrow> e) u)"

section \<open>Basic facts about the operations\<close>

lemma bind_result_Inr [simp]: "bind_result (Inr x) f = f x"
  by (simp add: bind_result_def)

lemma bind_result_Inl [simp]: "bind_result (Inl e) f = Inl e"
  by (simp add: bind_result_def)

lemma sequence_map_Inr:
  "(\<And>x. x \<in> set xs \<Longrightarrow> f x = Inr (g x)) \<Longrightarrow> sequence (map f xs) = Inr (map g xs)"
  by (induction xs) auto

lemma reduce_sum_acc: "foldl fl_add (Fin a) (map Fin xs) = Fin (a + sum_list xs)"
  by (induction xs arbitrary: a) (auto simp: algebra_simps)

lemma reduce_sum_Fin [simp]: "reduce_sum (map Fin xs) = Fin (sum_list xs)"
  by (simp add: reduce_sum_def reduce_sum_acc)

lemma fl_mul_one [simp]: "fl_mul x (Fin 1) = x"
  by (cases x) (auto simp: signed_inf_def)

lemma length_tf_ones [simp]: "length (tf_ones n) = n"
  by (simp add: tf_ones_def)

lemma map2_mul_ones:
  "length xs \<le> n \<Longrightarrow> map2 fl_mul xs (tf_ones n) = xs"
  unfolding tf_ones_def
proof (induction xs arbitrary: n)
  case Nil then show ?case by simp
next
  case (Cons a xs)
  then obtain m where "n = Suc m" by (cases n) auto
  with Cons show ?case by simp
qed

lemma tf_pad_lift:
  "tf_pad (lift x) (int before) (int after) (Fin v)
   = Inr (lift (map (\<lambda>r. replicate before v @ r @ replicate after v) x))"
  by (simp add: tf_pad_def lift_def)

lemma conv1d_ones_lift:
  "conv1d_valid (lift x) (tf_ones k)
   = lift (map (\<lambda>r. map (\<lambda>j. sum_list (take k (drop j r))) [0 ..< length r + 1 - k]) x)"
proof -
  have "map2 fl_mul (map Fin (take k (drop j r))) (tf_ones k) = map Fin (take k (drop j r))"
    for j and r :: "real list"
    by (rule map2_mul_ones) simp
  then show ?thesis
    by (simp add: conv1d_valid_def lift_def take_map drop_map)
qed

section \<open>The moving sum\<close>

lemma window_arith: "Suc (b + f) - (b - j) = Suc (j + f) - (j - b)"
  by arith

lemma padded_window_sum:
  fixes r :: "real list"
  shows "sum_list (take (Suc (b + f)) (drop j (replicate b 0 @ r @ replicate f 0)))
         = sum_list (window r j b f)"
  by (simp add: window_def drop_take sum_list_replicate window_arith)

lemma moving_sum_lift:
  "moving_sum (lift x) (int back) (int forward) = Inr (lift (moving_sum_spec x back forward))"
proof -
  have k: "nat (int back + int forward + 1) = back + forward + 1"
    by simp
  have "moving_sum (lift x) (int back) (int forward)
        = Inr (conv1d_valid (lift (map (\<lambda>r. replicate back 0 @ r @ replicate forward 0) x))
                 (tf_ones (back + forward + 1)))"
    unfolding moving_sum_def tf_pad_lift bind_result_Inr Let_def k ..
  also have "\<dots> = Inr (lift (moving_sum_spec x back forward))"
    unfolding conv1d_ones_lift moving_sum_spec_def
    by (simp add: comp_def padded_window_sum del: take_append drop_append)
  finally show ?thesis .
qed

lemma window_singleton: "j < length r \<Longrightarrow> window r j 0 0 = [r ! j]"
  by (simp add: window_def drop_take take_Suc_conv_app_nth)

lemma map_window_singleton:
  "map (\<lambda>j. f (window r j 0 0)) [0 ..< length r] = map (\<lambda>j. f [r ! j]) [0 ..< length r]"
  by (rule map_cong) (simp_all add: window_singleton)

lemma moving_sum_spec_id: "moving_sum_spec x 0 0 = x"
  by (simp add: moving_sum_spec_def map_window_singleton map_nth)

lemma shape_moving_sum_spec: "shape (moving_sum_spec x back forward) = shape x"
  by (simp add: shape_def moving_sum_spec_def)

text \<open>
  Claim C3. For every real (batch, T) array \<open>x\<close> and all non-negative integers \<open>back\<close> and
  \<open>forward\<close>, \<open>moving_sum(x, back, forward)\<close> returns an array of the shape of \<open>x\<close> whose entry
  \<open>[i, j]\<close> is the sum of the in-range entries of \<open>x[i, j - back .. j + forward]\<close> (entries
  out of range count as zero); and \<open>moving_sum(x, 0, 0)\<close> is \<open>x\<close>.
\<close>

theorem moving_sum_is_window_sum:
  "moving_sum (lift x) (int back) (int forward) = Inr (lift (moving_sum_spec x back forward))
   \<and> shape (moving_sum_spec x back forward) = shape x
   \<and> moving_sum (lift x) 0 0 = Inr (lift x)"
  using moving_sum_lift[of x "back" forward] moving_sum_lift[of x 0 0]
  by (simp add: moving_sum_spec_id shape_moving_sum_spec)

section \<open>The moving maximum\<close>

lemma foldl_max_Fin: "foldl fl_max (Fin a) (map Fin xs) = Fin (fold max xs a)"
  by (induction xs arbitrary: a) (auto simp: max.commute)

lemma max_list_Fin: "xs \<noteq> [] \<Longrightarrow> max_list (map Fin xs) = Fin (Max (set xs))"
proof (cases xs)
  case Nil
  moreover assume "xs \<noteq> []"
  ultimately show ?thesis by simp
next
  case (Cons a l)
  have "max_list (map Fin (a # l)) = Fin (fold max l a)"
    by (simp add: foldl_max_Fin)
  then show ?thesis
    unfolding Cons by (simp only: Max.set_eq_fold)
qed

lemma fl_max_NegInf [simp]: "fl_max NegInf y = y"
  by (cases y) simp_all

lemma max_list_NegInf_Cons: "max_list (NegInf # ys) = max_list ys"
  by (cases ys) simp_all

lemma max_list_pad: "max_list (replicate n NegInf @ ys) = max_list ys"
  by (induction n) (simp_all add: max_list_NegInf_Cons del: max_list.simps)

lemma padded_window:
  "take (Suc n) (drop j (replicate n v @ ys)) = replicate (n - j) v @ window ys j n 0"
  by (simp add: window_def drop_take window_arith[of n 0 j, simplified])

lemma window_nonempty: "j < length r \<Longrightarrow> window r j back forward \<noteq> []"
  by (simp add: window_def)

lemma window_map: "window (map f r) j back forward = map f (window r j back forward)"
  by (simp add: window_def take_map drop_map)

lemma moving_max_lift:
  "moving_max (lift x) (int (Suc n)) = Inr (lift (moving_max_spec x (Suc n)))"
proof -
  have row: "map (\<lambda>j. max_list (take (Suc n) (drop j (replicate n NegInf @ map Fin r))))
               [0 ..< length r]
             = map (\<lambda>j. Fin (Max (set (window r j n 0)))) [0 ..< length r]" for r :: "real list"
  proof (rule map_cong[OF refl])
    fix j
    assume "j \<in> set [0 ..< length r]"
    then have "window r j n 0 \<noteq> []"
      by (simp add: window_nonempty)
    then show "max_list (take (Suc n) (drop j (replicate n NegInf @ map Fin r)))
               = Fin (Max (set (window r j n 0)))"
      by (simp add: padded_window max_list_pad window_map max_list_Fin
               del: take_append drop_append)
  qed
  have w: "nat (int (Suc n)) = Suc n" "int (Suc n) - 1 = int n"
    by simp_all
  show ?thesis
    unfolding moving_max_def w
    by (simp add: tf_pad_def max_pool_valid_def lift_def comp_def row moving_max_spec_def
             del: take_append drop_append)
qed

lemma moving_max_spec_id: "moving_max_spec x (Suc 0) = x"
  by (simp add: moving_max_spec_def map_window_singleton[of "\<lambda>w. Max (set w)"] map_nth)

lemma shape_moving_max_spec: "shape (moving_max_spec x w) = shape x"
  by (simp add: shape_def moving_max_spec_def)

text \<open>
  Claim C4. For every real (batch, T) array \<open>x\<close> and every positive integer \<open>w\<close> (written
  \<open>Suc n\<close>), \<open>moving_max(x, w)\<close> returns an array of the shape of \<open>x\<close> whose entry \<open>[i, j]\<close> is the
  maximum of the in-range entries of \<open>x[i, j - w + 1 .. j]\<close>: the \<open>-inf\<close> padding never shows in
  the result; and \<open>moving_max(x, 1)\<close> is \<open>x\<close>.
\<close>

theorem moving_max_is_window_max:
  "moving_max (lift x) (int (Suc n)) = Inr (lift (moving_max_spec x (Suc n)))
   \<and> shape (moving_max_spec x (Suc n)) = shape x
   \<and> moving_max (lift x) 1 = Inr (lift x)"
  using moving_max_lift[of x n] moving_max_lift[of x 0]
  by (simp add: moving_max_spec_id shape_moving_max_spec)

section \<open>Tables and broadcasting\<close>

lemma tab_cong:
  "sh = sh' \<Longrightarrow> (\<And>i j. i < length sh' \<Longrightarrow> j < sh' ! i \<Longrightarrow> F i j = G i j) \<Longrightarrow> tab sh F = tab sh' G"
  by (simp add: tab_def)

lemma tab_shape: "tab (shape x) (\<lambda>i j. x ! i ! j) = x"
  by (rule nth_equalityI) (simp_all add: tab_def shape_def map_nth)

lemma shape_tab [simp]: "shape (tab sh F) = sh"
  by (simp add: tab_def shape_def comp_def map_nth)

lemma map_map_tab: "map (map f) (tab sh F) = tab sh (\<lambda>i j. f (F i j))"
  by (simp add: tab_def)

lemma lift_tab: "lift (tab sh F) = tab sh (\<lambda>i j. Fin (F i j))"
  by (simp add: lift_def map_map_tab)

lemma broadcast_maps:
  "broadcast f (map p zs) (map q zs) = sequence (map (\<lambda>z. f (p z) (q z)) zs)"
  by (simp add: broadcast_def zip_map_map zip_same_conv_map comp_def)

lemma broadcast_tab:
  assumes "\<And>i j. i < length sh \<Longrightarrow> j < sh ! i \<Longrightarrow> f (P i j) (Q i j) = Inr (R i j)"
  shows "broadcast (broadcast f) (tab sh P) (tab sh Q) = Inr (tab sh R)"
  unfolding tab_def broadcast_maps
  by (rule sequence_map_Inr, rule sequence_map_Inr) (simp add: assms)

lemma elementwise2_tab:
  "elementwise2 op (tab sh F) (tab sh G) = Inr (tab sh (\<lambda>i j. op (F i j) (G i j)))"
  unfolding elementwise2_def by (rule broadcast_tab) simp

lemma broadcast_same:
  "broadcast (\<lambda>a b. Inr (op a b)) (map p zs) (map q zs) = Inr (map (\<lambda>z. op (p z) (q z)) zs)"
  unfolding broadcast_maps by (rule sequence_map_Inr) simp

lemma broadcast_singleton_right:
  "broadcast (\<lambda>a b. Inr (op a b)) xs [y] = Inr (map (\<lambda>x. op x y) xs)"
proof (cases "length xs = 1")
  case True
  then obtain x where "xs = [x]" by (cases xs) auto
  then show ?thesis by (simp add: broadcast_def)
next
  case False
  then have "broadcast (\<lambda>a b. Inr (op a b)) xs [y] = sequence (map (\<lambda>x. Inr (op x y)) xs)"
    by (simp add: broadcast_def)
  also have "\<dots> = Inr (map (\<lambda>x. op x y) xs)"
    by (rule sequence_map_Inr) simp
  finally show ?thesis .
qed

lemma broadcast_singleton_left:
  "broadcast (\<lambda>a b. Inr (op a b)) [x] ys = Inr (map (op x) ys)"
proof (cases "length ys = 1")
  case True
  then obtain y where "ys = [y]" by (cases ys) auto
  then show ?thesis by (simp add: broadcast_def)
next
  case False
  then have "broadcast (\<lambda>a b. Inr (op a b)) [x] ys = sequence (map (\<lambda>y. Inr (op x y)) ys)"
    by (simp add: broadcast_def)
  also have "\<dots> = Inr (map (op x) ys)"
    by (rule sequence_map_Inr) simp
  finally show ?thesis .
qed

lemma elementwise3_tab:
  "elementwise3 op (tab sh (\<lambda>i j. map (F i j) [0 ..< w])) (tab sh (\<lambda>i j. map (G i j) [0 ..< w]))
   = Inr (tab sh (\<lambda>i j. map (\<lambda>t. op (F i j t) (G i j t)) [0 ..< w]))"
  unfolding elementwise3_def by (rule broadcast_tab) (rule broadcast_same)

lemma elementwise3_tab_right:
  "elementwise3 op (tab sh (\<lambda>i j. map (F i j) [0 ..< w])) (tab sh (\<lambda>i j. [G i j]))
   = Inr (tab sh (\<lambda>i j. map (\<lambda>t. op (F i j t) (G i j)) [0 ..< w]))"
  unfolding elementwise3_def by (rule broadcast_tab) (simp add: broadcast_singleton_right)

lemma elementwise3_tab_left:
  "elementwise3 op (tab sh (\<lambda>i j. [F i j])) (tab sh (\<lambda>i j. map (G i j) [0 ..< w]))
   = Inr (tab sh (\<lambda>i j. map (\<lambda>t. op (F i j) (G i j t)) [0 ..< w]))"
  unfolding elementwise3_def by (rule broadcast_tab) (simp add: broadcast_singleton_left)

lemma pad_frame:
  assumes "j + k \<le> b + T + f"
  shows "take k (drop j (replicate b v @ map g [0 ..< T] @ replicate f v))
         = map (\<lambda>t. if b \<le> j + t \<and> j + t < b + T then g (j + t - b) else v) [0 ..< k]"
proof (rule nth_equalityI)
  show "length (take k (drop j (replicate b v @ map g [0 ..< T] @ replicate f v)))
        = length (map (\<lambda>t. if b \<le> j + t \<and> j + t < b + T then g (j + t - b) else v) [0 ..< k])"
    using assms by (simp del: take_append drop_append)
next
  fix t
  assume "t < length (take k (drop j (replicate b v @ map g [0 ..< T] @ replicate f v)))"
  then have t: "t < k" by (simp del: take_append drop_append)
  with assms have "j + t < b + T + f" by simp
  with t show "take k (drop j (replicate b v @ map g [0 ..< T] @ replicate f v)) ! t
        = map (\<lambda>t. if b \<le> j + t \<and> j + t < b + T then g (j + t - b) else v) [0 ..< k] ! t"
    by (auto simp: nth_append simp del: take_append drop_append)
qed

lemma tf_pad_tab:
  "tf_pad (tab sh F) (int b) (int f) v
   = Inr (map (\<lambda>i. replicate b v @ map (F i) [0 ..< sh ! i] @ replicate f v) [0 ..< length sh])"
  by (simp add: tf_pad_def tab_def)

lemma moving_sum_tab:
  "moving_sum (tab sh (\<lambda>i j. Fin (F i j))) (int b) (int f)
   = Inr (tab sh (\<lambda>i j. Fin (sum_list (map (\<lambda>t. if b \<le> j + t \<and> j + t < b + sh ! i
                                                 then F i (j + t - b) else 0) [0 ..< Suc (b + f)]))))"
proof -
  have k: "nat (int b + int f + 1) = Suc (b + f)"
    by simp
  have entry: "reduce_sum (map2 fl_mul (take (Suc (b + f))
                 (drop j (replicate b (Fin 0) @ map (\<lambda>j. Fin (F i j)) [0 ..< T] @ replicate f (Fin 0))))
                 (tf_ones (Suc (b + f))))
               = Fin (sum_list (map (\<lambda>t. if b \<le> j + t \<and> j + t < b + T
                                          then F i (j + t - b) else 0) [0 ..< Suc (b + f)]))"
    if "j < T" for i j T
  proof -
    have "take (Suc (b + f))
            (drop j (replicate b (Fin 0) @ map (\<lambda>j. Fin (F i j)) [0 ..< T] @ replicate f (Fin 0)))
          = map (\<lambda>t. if b \<le> j + t \<and> j + t < b + T then Fin (F i (j + t - b)) else Fin 0)
              [0 ..< Suc (b + f)]"
      using that by (intro pad_frame) simp
    also have "\<dots> = map Fin (map (\<lambda>t. if b \<le> j + t \<and> j + t < b + T
                                      then F i (j + t - b) else 0) [0 ..< Suc (b + f)])"
      by simp
    finally show ?thesis
      by (simp only: map2_mul_ones length_map length_upt diff_zero order_refl reduce_sum_Fin)
  qed
  show ?thesis
    unfolding moving_sum_def tf_pad_tab bind_result_Inr Let_def k conv1d_valid_def
    by (simp add: tab_def entry del: take_append drop_append upt_Suc)
qed

section \<open>The efficient variant on real inputs\<close>

lemma lift_as_tab: "lift x = tab (shape x) (\<lambda>i j. Fin (x ! i ! j))"
  using lift_tab[of "shape x" "\<lambda>i j. x ! i ! j"] by (simp add: tab_shape)

lemma efficient_softmax_exp_tab:
  "efficient_softmax_exp (tab sh F)
   = Inr (tab sh (\<lambda>i j. fl_max (fl_exp (fl_sub (F i j) (max_list (map (F i) [0 ..< sh ! i]))))
                              (Fin clamp_floor)))"
proof -
  have "elementwise2 fl_sub (tab sh F) (reduce_max_keepdims (tab sh F))
        = Inr (tab sh (\<lambda>i j. fl_sub (F i j) (max_list (map (F i) [0 ..< sh ! i]))))"
    unfolding elementwise2_def reduce_max_keepdims_def tab_def map_map comp_def broadcast_maps
    by (rule sequence_map_Inr) (simp add: broadcast_singleton_right)
  then show ?thesis
    by (simp add: efficient_softmax_exp_def map_map_tab)
qed

lemma fl_sub_Fin [simp]: "fl_sub (Fin a) (Fin b) = Fin (a - b)"
  by (simp add: fl_sub_def)

lemma efficient_softmax_exp_lift:
  "efficient_softmax_exp (lift u) = Inr (tab (shape u) (\<lambda>i j. Fin (efficient_exp_row (u ! i) j)))"
  unfolding lift_as_tab efficient_softmax_exp_tab
proof (rule arg_cong[where f = Inr], rule tab_cong[OF refl])
  fix i j
  assume i: "i < length (shape u)" and j: "j < shape u ! i"
  then have len: "shape u ! i = length (u ! i)"
    by (simp add: shape_def)
  with j have ne: "u ! i \<noteq> []"
    by auto
  have "map (\<lambda>j. Fin (u ! i ! j)) [0 ..< shape u ! i] = map Fin (u ! i)"
    unfolding len by (rule nth_equalityI) simp_all
  then show "fl_max (fl_exp (fl_sub (Fin (u ! i ! j))
               (max_list (map (\<lambda>j. Fin (u ! i ! j)) [0 ..< shape u ! i])))) (Fin clamp_floor)
             = Fin (efficient_exp_row (u ! i) j)"
    using ne by (simp add: max_list_Fin efficient_exp_row_def)
qed

lemma clamp_floor_pos: "0 < clamp_floor"
  by (simp add: clamp_floor_def)

lemma efficient_exp_row_ge: "clamp_floor \<le> efficient_exp_row u l"
  by (simp add: efficient_exp_row_def)

lemma sum_list_upt_member_le:
  fixes f :: "nat \<Rightarrow> real"
  assumes "t < k" and "\<And>s. s < k \<Longrightarrow> 0 \<le> f s"
  shows "f t \<le> sum_list (map f [0 ..< k])"
proof -
  have "f t \<le> sum f {0 ..< k}"
    using assms by (intro member_le_sum) auto
  then show ?thesis
    by (simp add: interv_sum_list_conv_sum_set_nat)
qed

lemma efficient_den_row_ge:
  assumes "k < length u"
  shows "clamp_floor \<le> efficient_den_row n u k"
proof -
  let ?f = "\<lambda>t. if n \<le> k + t \<and> k + t < n + length u
                 then efficient_exp_row u (k + t - n) else 0"
  have nonneg: "0 \<le> ?f s" for s
    using efficient_exp_row_ge[of u "k + s - n"] clamp_floor_pos by auto
  have "?f n \<le> sum_list (map ?f [0 ..< Suc n])"
    by (rule sum_list_upt_member_le) (use nonneg in auto)
  moreover have "?f n = efficient_exp_row u k"
    using assms by simp
  ultimately show ?thesis
    using efficient_exp_row_ge[of u k] by (simp add: efficient_den_row_def del: upt_Suc)
qed

lemma efficient_softmax_denominators_lift:
  "efficient_softmax_denominators (int (Suc n)) (lift u)
   = Inr (tab (shape u) (\<lambda>i j. Fin (efficient_den_row n (u ! i) j)))"
proof -
  have w: "int (Suc n) - 1 = int n" "(0::int) = int 0"
    by simp_all
  show ?thesis
    unfolding efficient_softmax_denominators_def efficient_softmax_exp_lift bind_result_Inr
    apply (subst w(1), subst w(2), subst moving_sum_tab)
    apply (rule arg_cong[where f = Inr], rule tab_cong[OF refl])
    apply (simp add: efficient_den_row_def shape_def del: upt_Suc)
    done
qed

lemma efficient_lift:
  assumes "shape a = shape u"
  shows "efficient_chunkwise_attention (int (Suc n)) (lift a) (lift u)
         = Inr (lift (efficient_real n a u))"
proof -
  let ?sh = "shape u"
  let ?s = "\<lambda>i j. efficient_exp_row (u ! i) j"
  let ?d = "\<lambda>i j. efficient_den_row n (u ! i) j"
  let ?q = "\<lambda>i j. a ! i ! j / ?d i j"
  let ?r = "\<lambda>i j. sum_list (map (\<lambda>t. if 0 \<le> j + t \<and> j + t < 0 + ?sh ! i
                                     then ?q i (j + t - 0) else 0) [0 ..< Suc (0 + n)])"
  have w: "int (Suc n) - 1 = int n" "(0::int) = int 0"
    by simp_all
  have len: "?sh ! i = length (u ! i)" if "i < length ?sh" for i
    using that by (simp add: shape_def)
  have exp: "efficient_softmax_exp (lift u) = Inr (tab ?sh (\<lambda>i j. Fin (?s i j)))"
    by (rule efficient_softmax_exp_lift)
  have den: "moving_sum (tab ?sh (\<lambda>i j. Fin (?s i j))) (int (Suc n) - 1) 0
             = Inr (tab ?sh (\<lambda>i j. Fin (?d i j)))"
    apply (subst w(1), subst w(2), subst moving_sum_tab)
    apply (rule arg_cong[where f = Inr], rule tab_cong[OF refl])
    apply (simp add: efficient_den_row_def len del: upt_Suc)
    done
  have quot: "elementwise2 fl_div (lift a) (tab ?sh (\<lambda>i j. Fin (?d i j)))
              = Inr (tab ?sh (\<lambda>i j. Fin (?q i j)))"
    unfolding lift_as_tab[of a] assms elementwise2_tab
  proof (rule arg_cong[where f = Inr], rule tab_cong[OF refl])
    fix i j
    assume "i < length ?sh" and "j < ?sh ! i"
    then have "j < length (u ! i)"
      by (simp add: len)
    then have "0 < ?d i j"
      using efficient_den_row_ge[of j "u ! i" n] clamp_floor_pos by simp
    then show "fl_div (Fin (a ! i ! j)) (Fin (?d i j)) = Fin (?q i j)"
      by simp
  qed
  have summed: "moving_sum (tab ?sh (\<lambda>i j. Fin (?q i j))) 0 (int (Suc n) - 1)
                = Inr (tab ?sh (\<lambda>i j. Fin (?r i j)))"
    by (subst w(1), subst w(2), subst moving_sum_tab) (rule refl)
  have prod: "elementwise2 fl_mul (tab ?sh (\<lambda>i j. Fin (?s i j))) (tab ?sh (\<lambda>i j. Fin (?r i j)))
              = Inr (lift (efficient_real n a u))"
    unfolding elementwise2_tab efficient_real_def lift_tab
    apply (rule arg_cong[where f = Inr], rule tab_cong[OF refl])
    apply (simp add: efficient_row_def len del: upt_Suc cong: if_cong)
    done
  show ?thesis
    unfolding efficient_chunkwise_attention_def exp bind_result_Inr den quot summed prod ..
qed

section \<open>The stable variant on real inputs\<close>

lemma frame_tab_pad_end:
  "frame (tab sh F) (Suc n) True v
   = tab sh (\<lambda>i j. map (\<lambda>t. if j + t < sh ! i then F i (j + t) else v) [0 ..< Suc n])"
proof -
  have "take (Suc n) (drop j (map (F i) [0 ..< T] @ replicate n v))
        = map (\<lambda>t. if j + t < T then F i (j + t) else v) [0 ..< Suc n]" if "j < T" for i j T
    using that pad_frame[of j "Suc n" 0 T n v "F i"] by simp
  then show ?thesis
    by (simp add: frame_def tab_def del: take_append drop_append upt_Suc)
qed

lemma frame_tab_padded:
  "frame (map (\<lambda>i. replicate n v @ map (F i) [0 ..< sh ! i] @ replicate 0 v) [0 ..< length sh])
     (Suc n) False v'
   = tab sh (\<lambda>i k. map (\<lambda>t. if n \<le> k + t \<and> k + t < n + sh ! i then F i (k + t - n) else v)
                      [0 ..< Suc n])"
proof -
  have "take (Suc n) (drop k (replicate n v @ map (F i) [0 ..< T] @ replicate 0 v))
        = map (\<lambda>t. if n \<le> k + t \<and> k + t < n + T then F i (k + t - n) else v) [0 ..< Suc n]"
    if "k < T" for i k T
    using that by (intro pad_frame) simp
  then show ?thesis
    by (simp add: frame_def tab_def del: take_append drop_append upt_Suc replicate.simps append_Nil2)
qed

lemma expand_dims_tab: "expand_dims (tab sh F) = tab sh (\<lambda>i j. [F i j])"
  by (simp add: expand_dims_def map_map_tab)

lemma tf_ones_like3_tab:
  "tf_ones_like3 (tab sh F) w = tab sh (\<lambda>i j. map (\<lambda>t. Fin 1) [0 ..< w])"
  by (simp add: tf_ones_like3_def map_map_tab tf_ones_def map_replicate_const)

lemma map3_tab:
  "map (map (map f)) (tab sh (\<lambda>i j. map (G i j) [0 ..< w]))
   = tab sh (\<lambda>i j. map (\<lambda>t. f (G i j t)) [0 ..< w])"
  by (simp add: map_map_tab comp_def)

lemma moving_max_spec_tab:
  "moving_max_spec u (Suc n) = tab (shape u) (\<lambda>i k. stable_max_row n (u ! i) k)"
  by (rule nth_equalityI) (simp_all add: moving_max_spec_def tab_def shape_def stable_max_row_def)

lemma sum_list_upt_pos:
  fixes f :: "nat \<Rightarrow> real"
  assumes "t < k" and "0 < f t" and "\<And>s. s < k \<Longrightarrow> 0 \<le> f s"
  shows "0 < sum_list (map f [0 ..< k])"
  using sum_list_upt_member_le[of t k f] assms by fastforce

lemma stable_den_row_pos:
  assumes "k < length u"
  shows "0 < stable_den_row n u k"
  unfolding stable_den_row_def
  by (rule sum_list_upt_pos[where t = n]) (use assms in auto)

lemma fl_sub_NegInf_Fin [simp]: "fl_sub NegInf (Fin b) = NegInf"
  by (simp add: fl_sub_def)

lemma fl_sub_Fin_PosInf [simp]: "fl_sub (Fin a) PosInf = NegInf"
  by (simp add: fl_sub_def)

lemma stable_split:
  "stable_chunkwise_attention (int (Suc n)) e (lift u)
   = bind_result (elementwise3 fl_mul (frame e (Suc n) True (Fin 0)) (stable_numerators n u))
       (\<lambda>product. bind_result (elementwise3 fl_div product (stable_framed_denominators n u))
          (\<lambda>terms. Inr (map (map reduce_sum) terms)))"
proof -
  let ?sh = "shape u"
  let ?w = "Suc n"
  let ?U = "\<lambda>i j. Fin (u ! i ! j)"
  let ?m = "\<lambda>i k. stable_max_row n (u ! i) k"
  let ?d = "\<lambda>i k. stable_den_row n (u ! i) k"
  have w: "int (Suc n) - 1 = int n" "(0::int) = int 0" "nat (int (Suc n)) = Suc n"
    by simp_all
  have len: "?sh ! i = length (u ! i)" if "i < length ?sh" for i
    using that by (simp add: shape_def)
  have lmax: "moving_max (lift u) (int (Suc n)) = Inr (tab ?sh (\<lambda>i k. Fin (?m i k)))"
    by (simp only: moving_max_lift moving_max_spec_tab lift_tab)
  have padded: "tf_pad (lift u) (int (Suc n) - 1) 0 NegInf
                = Inr (map (\<lambda>i. replicate n NegInf @ map (?U i) [0 ..< ?sh ! i] @ replicate 0 NegInf)
                         [0 ..< length ?sh])"
    by (subst w(1), subst w(2), subst lift_as_tab, rule tf_pad_tab)
  let ?FL = "\<lambda>i k t. if n \<le> k + t \<and> k + t < n + ?sh ! i then ?U i (k + t - n) else NegInf"
  have framed: "frame (map (\<lambda>i. replicate n NegInf @ map (?U i) [0 ..< ?sh ! i] @ replicate 0 NegInf)
                         [0 ..< length ?sh]) (Suc n) False (Fin 0)
                = tab ?sh (\<lambda>i k. map (?FL i k) [0 ..< ?w])"
    by (rule frame_tab_padded)
  have normalized: "elementwise3 fl_sub (tab ?sh (\<lambda>i k. map (?FL i k) [0 ..< ?w]))
                      (expand_dims (tab ?sh (\<lambda>i k. Fin (?m i k))))
                    = Inr (tab ?sh (\<lambda>i k. map (\<lambda>t. fl_sub (?FL i k t) (Fin (?m i k))) [0 ..< ?w]))"
    unfolding expand_dims_tab by (rule elementwise3_tab_right)
  have dens: "map (map (\<lambda>fr. reduce_sum (map fl_exp fr)))
                (tab ?sh (\<lambda>i k. map (\<lambda>t. fl_sub (?FL i k t) (Fin (?m i k))) [0 ..< ?w]))
              = tab ?sh (\<lambda>i k. Fin (?d i k))"
    unfolding map_map_tab
  proof (rule tab_cong[OF refl])
    fix i k
    assume "i < length ?sh" and "k < ?sh ! i"
    have "map fl_exp (map (\<lambda>t. fl_sub (?FL i k t) (Fin (?m i k))) [0 ..< ?w])
          = map Fin (map (\<lambda>t. if n \<le> k + t \<and> k + t < n + ?sh ! i
                               then exp (u ! i ! (k + t - n) - ?m i k) else 0) [0 ..< ?w])"
      by (simp del: upt_Suc)
    then show "reduce_sum (map fl_exp (map (\<lambda>t. fl_sub (?FL i k t) (Fin (?m i k))) [0 ..< ?w]))
               = Fin (?d i k)"
      using \<open>i < length ?sh\<close> by (simp only: reduce_sum_Fin stable_den_row_def len)
  qed
  have fdens: "frame (tab ?sh (\<lambda>i k. Fin (?d i k))) (Suc n) True PosInf
               = stable_framed_denominators n u"
    unfolding frame_tab_pad_end stable_framed_denominators_def
    by (rule tab_cong[OF refl]) (simp add: len del: upt_Suc)
  have copied: "elementwise3 fl_mul (expand_dims (lift u)) (tf_ones_like3 (lift u) (Suc n))
                = Inr (tab ?sh (\<lambda>i j. map (\<lambda>t. ?U i j) [0 ..< ?w]))"
    unfolding lift_as_tab expand_dims_tab tf_ones_like3_tab elementwise3_tab_left
    by simp
  let ?M = "\<lambda>i j t. if j + t < ?sh ! i then Fin (?m i (j + t)) else PosInf"
  have fmax: "frame (tab ?sh (\<lambda>i k. Fin (?m i k))) (Suc n) True PosInf
              = tab ?sh (\<lambda>i j. map (?M i j) [0 ..< ?w])"
    by (rule frame_tab_pad_end)
  have shifted: "elementwise3 fl_sub (tab ?sh (\<lambda>i j. map (\<lambda>t. ?U i j) [0 ..< ?w]))
                   (tab ?sh (\<lambda>i j. map (?M i j) [0 ..< ?w]))
                 = Inr (tab ?sh (\<lambda>i j. map (\<lambda>t. fl_sub (?U i j) (?M i j t)) [0 ..< ?w]))"
    by (rule elementwise3_tab)
  have nums: "map (map (map fl_exp)) (tab ?sh (\<lambda>i j. map (\<lambda>t. fl_sub (?U i j) (?M i j t)) [0 ..< ?w]))
              = stable_numerators n u"
    unfolding map3_tab stable_numerators_def
    by (rule tab_cong[OF refl]) (simp add: len del: upt_Suc)
  show ?thesis
    unfolding stable_chunkwise_attention_def w(3) lmax bind_result_Inr padded Let_def framed
      normalized dens fdens copied fmax shifted nums ..
qed

lemma stable_lift:
  assumes "shape a = shape u"
  shows "stable_chunkwise_attention (int (Suc n)) (lift a) (lift u)
         = Inr (lift (stable_real n a u))"
proof -
  let ?sh = "shape u"
  let ?w = "Suc n"
  let ?N = "\<lambda>i j t. if j + t < length (u ! i)
                     then Fin (exp (u ! i ! j - stable_max_row n (u ! i) (j + t))) else Fin 0"
  let ?E = "\<lambda>i j t. if j + t < length (u ! i)
                     then Fin (stable_den_row n (u ! i) (j + t)) else PosInf"
  let ?A = "\<lambda>i j t. if j + t < ?sh ! i then Fin (a ! i ! (j + t)) else Fin 0"
  have len: "?sh ! i = length (u ! i)" if "i < length ?sh" for i
    using that by (simp add: shape_def)
  have fprobs: "frame (lift a) ?w True (Fin 0) = tab ?sh (\<lambda>i j. map (?A i j) [0 ..< ?w])"
    unfolding lift_as_tab[of a] assms by (rule frame_tab_pad_end)
  have product: "elementwise3 fl_mul (tab ?sh (\<lambda>i j. map (?A i j) [0 ..< ?w])) (stable_numerators n u)
                 = Inr (tab ?sh (\<lambda>i j. map (\<lambda>t. fl_mul (?A i j t) (?N i j t)) [0 ..< ?w]))"
    unfolding stable_numerators_def by (rule elementwise3_tab)
  have quot: "elementwise3 fl_div
                 (tab ?sh (\<lambda>i j. map (\<lambda>t. fl_mul (?A i j t) (?N i j t)) [0 ..< ?w]))
                 (stable_framed_denominators n u)
               = Inr (tab ?sh (\<lambda>i j. map (\<lambda>t. fl_div (fl_mul (?A i j t) (?N i j t)) (?E i j t))
                                    [0 ..< ?w]))"
    unfolding stable_framed_denominators_def by (rule elementwise3_tab)
  have result: "map (map reduce_sum)
                  (tab ?sh (\<lambda>i j. map (\<lambda>t. fl_div (fl_mul (?A i j t) (?N i j t)) (?E i j t))
                                    [0 ..< ?w]))
                = lift (stable_real n a u)"
    unfolding map_map_tab stable_real_def lift_tab
  proof (rule tab_cong[OF refl])
    fix i j
    assume i: "i < length ?sh" and j: "j < ?sh ! i"
    have entry: "fl_div (fl_mul (?A i j t) (?N i j t)) (?E i j t)
                = Fin (if j + t < length (u ! i)
                       then a ! i ! (j + t) * exp (u ! i ! j - stable_max_row n (u ! i) (j + t))
                            / stable_den_row n (u ! i) (j + t)
                       else 0)" for t
    proof (cases "j + t < length (u ! i)")
      case True
      then have "0 < stable_den_row n (u ! i) (j + t)"
        by (rule stable_den_row_pos)
      with True i show ?thesis
        by (simp add: len)
    next
      case False
      with i show ?thesis
        by (simp add: len)
    qed
    show "reduce_sum (map (\<lambda>t. fl_div (fl_mul (?A i j t) (?N i j t)) (?E i j t)) [0 ..< ?w])
          = Fin (stable_row n (a ! i) (u ! i) j)"
      unfolding entry stable_row_def
      using reduce_sum_Fin[of "map (\<lambda>t. if j + t < length (u ! i)
                       then a ! i ! (j + t) * exp (u ! i ! j - stable_max_row n (u ! i) (j + t))
                            / stable_den_row n (u ! i) (j + t)
                       else 0) [0 ..< ?w]"]
      by (simp only: map_map comp_def)
  qed
  show ?thesis
    unfolding stable_split fprobs product bind_result_Inr quot result ..
qed

section \<open>Chunk size one\<close>

lemma efficient_exp_row_pos: "0 < efficient_exp_row u l"
  using efficient_exp_row_ge[of u l] clamp_floor_pos by linarith

lemma efficient_row_chunk_one:
  assumes "j < length u"
  shows "efficient_row 0 a u j = a ! j"
  using assms efficient_exp_row_pos[of u j]
  by (simp add: efficient_row_def efficient_den_row_def)

lemma stable_row_chunk_one:
  assumes "j < length u"
  shows "stable_row 0 a u j = a ! j"
  using assms
  by (simp add: stable_row_def stable_den_row_def stable_max_row_def window_singleton)

lemma efficient_real_chunk_one:
  assumes "shape a = shape u"
  shows "efficient_real 0 a u = a"
proof -
  have "efficient_real 0 a u = tab (shape u) (\<lambda>i j. a ! i ! j)"
    unfolding efficient_real_def
    by (rule tab_cong[OF refl]) (simp add: efficient_row_chunk_one shape_def)
  then show ?thesis
    using tab_shape[of a] assms by simp
qed

lemma stable_real_chunk_one:
  assumes "shape a = shape u"
  shows "stable_real 0 a u = a"
proof -
  have "stable_real 0 a u = tab (shape u) (\<lambda>i j. a ! i ! j)"
    unfolding stable_real_def
    by (rule tab_cong[OF refl]) (simp add: stable_row_chunk_one shape_def)
  then show ?thesis
    using tab_shape[of a] assms by simp
qed

section \<open>The clamp floor\<close>

lemma list_all_tab:
  assumes "\<And>i j. i < length sh \<Longrightarrow> j < sh ! i \<Longrightarrow> P (F i j)"
  shows "list_all (list_all P) (tab sh F)"
  using assms by (simp add: tab_def list_all_iff)

text \<open>
  Claim C6. In \<open>efficient_chunkwise_attention\<close>, on every real \<open>softmax_logits\<close> and for every
  positive \<open>chunk_size\<close> (written \<open>Suc n\<close>), every clamped exponential is a real number that is
  at least the floor \<open>1e-5\<close>, and every entry of \<open>softmax_denominators\<close> is a real number that
  is at least \<open>1e-5\<close>, hence strictly positive: \<open>emit_probs / softmax_denominators\<close> never
  divides by zero.
\<close>

theorem efficient_denominators_at_least_floor:
  "\<exists>s d. efficient_softmax_exp (lift u) = Inr (lift s)
        \<and> efficient_softmax_denominators (int (Suc n)) (lift u) = Inr (lift d)
        \<and> shape s = shape u \<and> shape d = shape u
        \<and> list_all (list_all (\<lambda>v. clamp_floor \<le> v)) s
        \<and> list_all (list_all (\<lambda>v. clamp_floor \<le> v \<and> 0 < v)) d
        \<and> clamp_floor = 1 / 100000"
proof -
  let ?s = "tab (shape u) (\<lambda>i j. efficient_exp_row (u ! i) j)"
  let ?d = "tab (shape u) (\<lambda>i j. efficient_den_row n (u ! i) j)"
  have "list_all (list_all (\<lambda>v. clamp_floor \<le> v)) ?s"
    by (rule list_all_tab) (rule efficient_exp_row_ge)
  moreover have "list_all (list_all (\<lambda>v. clamp_floor \<le> v \<and> 0 < v)) ?d"
  proof (rule list_all_tab)
    fix i j
    assume "i < length (shape u)" and "j < shape u ! i"
    then have "j < length (u ! i)"
      by (simp add: shape_def)
    then have "clamp_floor \<le> efficient_den_row n (u ! i) j"
      by (rule efficient_den_row_ge)
    with clamp_floor_pos
    show "clamp_floor \<le> efficient_den_row n (u ! i) j \<and> 0 < efficient_den_row n (u ! i) j"
      by simp
  qed
  ultimately show ?thesis
    using efficient_softmax_exp_lift[of u] efficient_softmax_denominators_lift[of n u]
    by (intro exI[of _ ?s] exI[of _ ?d]) (simp add: lift_tab clamp_floor_def)
qed

section \<open>Invariance under a shift of the logits\<close>

lemma shape_add_row_constant [simp]: "shape (add_row_constant c u) = shape u"
  by (rule nth_equalityI) (simp_all add: shape_def add_row_constant_def)

lemma nth_add_row_constant:
  "i < length u \<Longrightarrow> add_row_constant c u ! i = map (\<lambda>v. v + c i) (u ! i)"
  by (simp add: add_row_constant_def)

lemma Max_shift:
  fixes xs :: "real list"
  assumes "xs \<noteq> []"
  shows "Max ((\<lambda>v. v + c) ` set xs) = Max (set xs) + c"
  using assms by (intro hom_Max_commute[symmetric]) auto

lemma stable_max_row_shift:
  assumes "k < length r"
  shows "stable_max_row n (map (\<lambda>v. v + c) r) k = stable_max_row n r k + c"
  using assms by (simp add: stable_max_row_def window_map Max_shift window_nonempty)

lemma moving_max_nonpositive: "w \<le> 0 \<Longrightarrow> moving_max x w = Inl InvalidArgument"
  by (simp add: moving_max_def tf_pad_def)

section \<open>Linearity of the moving sum\<close>

lemma sum_list_map2_add:
  fixes xs ys :: "real list"
  assumes "length xs = length ys"
  shows "sum_list (map2 (+) xs ys) = sum_list xs + sum_list ys"
  using assms by (induction xs ys rule: list_induct2) simp_all

lemma window_map2:
  "window (map2 f r r') j b k = map2 f (window r j b k) (window r' j b k)"
  by (simp add: window_def take_zip drop_zip take_map drop_map)

lemma length_window_eq:
  "length r = length r' \<Longrightarrow> length (window r j b k) = length (window r' j b k)"
  by (simp add: window_def)

lemma shape_eq_nth:
  assumes "shape x = shape y"
  shows "length x = length y" and "i < length y \<Longrightarrow> length (x ! i) = length (y ! i)"
proof -
  show len: "length x = length y"
    using assms by (auto simp: shape_def dest: map_eq_imp_length_eq)
  assume i: "i < length y"
  have "map length x ! i = map length y ! i"
    using assms by (simp add: shape_def)
  with i len show "length (x ! i) = length (y ! i)"
    by simp
qed

lemma moving_sum_spec_add:
  assumes "shape x = shape y"
  shows "moving_sum_spec (matrix_add x y) b f
         = matrix_add (moving_sum_spec x b f) (moving_sum_spec y b f)"
proof (rule nth_equalityI)
  show "length (moving_sum_spec (matrix_add x y) b f)
        = length (matrix_add (moving_sum_spec x b f) (moving_sum_spec y b f))"
    by (simp add: moving_sum_spec_def matrix_add_def)
next
  fix i
  assume "i < length (moving_sum_spec (matrix_add x y) b f)"
  then have i: "i < length x" "i < length y"
    by (simp_all add: moving_sum_spec_def matrix_add_def)
  then have len: "length (x ! i) = length (y ! i)"
    using shape_eq_nth(2)[OF assms] by simp
  have "map (\<lambda>j. sum_list (window (map2 (+) (x ! i) (y ! i)) j b f)) [0 ..< length (y ! i)]
        = map2 (+) (map (\<lambda>j. sum_list (window (x ! i) j b f)) [0 ..< length (y ! i)])
                   (map (\<lambda>j. sum_list (window (y ! i) j b f)) [0 ..< length (y ! i)])"
    by (rule nth_equalityI)
       (simp_all add: window_map2 sum_list_map2_add length_window_eq[OF len] del: upt_Suc)
  with i len show "moving_sum_spec (matrix_add x y) b f ! i
        = matrix_add (moving_sum_spec x b f) (moving_sum_spec y b f) ! i"
    by (simp add: moving_sum_spec_def matrix_add_def)
qed

lemma moving_sum_spec_scale:
  "moving_sum_spec (matrix_scale c x) b f = matrix_scale c (moving_sum_spec x b f)"
  by (simp add: moving_sum_spec_def matrix_scale_def window_map sum_list_const_mult comp_def)

text \<open>
  Claim C10, as amended. When the arithmetic is exact, \<open>moving_sum\<close> is linear: for real
  arrays \<open>x\<close> and \<open>y\<close> of the same shape, a real scalar \<open>c\<close> and non-negative \<open>back\<close> and
  \<open>forward\<close>, the moving sum of \<open>x + y\<close> is the sum of the moving sums of \<open>x\<close> and of \<open>y\<close>, and
  the moving sum of \<open>c * x\<close> is \<open>c\<close> times the moving sum of \<open>x\<close>.
\<close>

theorem moving_sum_linear:
  assumes "shape x = shape y"
  shows "\<exists>sx sy. moving_sum (lift x) (int b) (int f) = Inr (lift sx)
           \<and> moving_sum (lift y) (int b) (int f) = Inr (lift sy)
           \<and> moving_sum (lift (matrix_add x y)) (int b) (int f) = Inr (lift (matrix_add sx sy))
           \<and> moving_sum (lift (matrix_scale c x)) (int b) (int f) = Inr (lift (matrix_scale c sx))"
  by (intro exI[of _ "moving_sum_spec x b f"] exI[of _ "moving_sum_spec y b f"])
     (simp add: moving_sum_lift moving_sum_spec_add[OF assms] moving_sum_spec_scale)

theorem moving_sum_linear_witness:
  "shape [[1, 2 :: real]] = shape [[3, 4 :: real]]
   \<and> (\<exists>sx sy. moving_sum (lift [[1, 2]]) 1 0 = Inr (lift sx)
         \<and> moving_sum (lift [[3, 4]]) 1 0 = Inr (lift sy)
         \<and> moving_sum (lift (matrix_add [[1, 2]] [[3, 4]])) 1 0 = Inr (lift (matrix_add sx sy))
         \<and> moving_sum (lift (matrix_scale 2 [[1, 2]])) 1 0 = Inr (lift (matrix_scale 2 sx)))"
  using moving_sum_linear[of "[[1, 2]]" "[[3, 4]]" 1 0 2]
  by (simp add: shape_def)

text \<open>
  Claim C10, as stated, fails in float32: \<open>x = [[16777216, 1]]\<close> and \<open>y = [[-16777216, 0]]\<close>
  are float32 arrays of the same shape, and with \<open>back = 1\<close> and \<open>forward = 0\<close> the moving sum
  of \<open>x + y\<close> is \<open>[[0, 1]]\<close>, while the sum of the moving sums of \<open>x\<close> and of \<open>y\<close> is
  \<open>[[0, 0]]\<close>, because \<open>16777216 + 1\<close> rounds to \<open>16777216\<close>.
\<close>

theorem moving_sum_not_additive_in_float32:
  "list_all is_f32 [16777216, 1, - 16777216, 0]
   \<and> bind_result (elementwise2 (rounded fl_round fl_add)
                  [[Fin 16777216, Fin 1]] [[Fin (- 16777216), Fin 0]])
       (\<lambda>z. moving_sum_rnd fl_round z 1 0) = Inr [[Fin 0, Fin 1]]
   \<and> bind_result (moving_sum_rnd fl_round [[Fin 16777216, Fin 1]] 1 0) (\<lambda>sx.
       bind_result (moving_sum_rnd fl_round [[Fin (- 16777216), Fin 0]] 1 0) (\<lambda>sy.
         elementwise2 (rounded fl_round fl_add) sx sy)) = Inr [[Fin 0, Fin 0]]"
  by code_simp

section \<open>The outputs lie in the unit interval\<close>

lemma window_mass_le_total:
  fixes a :: "real list"
  assumes "\<And>k. k < length a \<Longrightarrow> 0 \<le> a ! k"
  shows "sum_list (map (\<lambda>t. if j + t < length a then a ! (j + t) else 0) [0 ..< m]) \<le> sum_list a"
proof -
  let ?S = "{t \<in> {0 ..< m}. j + t < length a}"
  have "sum_list (map (\<lambda>t. if j + t < length a then a ! (j + t) else 0) [0 ..< m])
        = (\<Sum>t \<in> {0 ..< m}. if j + t < length a then a ! (j + t) else 0)"
    by (simp add: interv_sum_list_conv_sum_set_nat)
  also have "\<dots> = (\<Sum>t \<in> ?S. a ! (j + t))"
    by (rule sum.inter_filter[symmetric]) simp
  also have "\<dots> = sum ((!) a) ((\<lambda>t. j + t) ` ?S)"
    by (subst sum.reindex) (auto simp: inj_on_def)
  also have "\<dots> \<le> sum ((!) a) {0 ..< length a}"
    by (rule sum_mono2) (use assms in auto)
  also have "\<dots> = sum_list a"
    by (simp add: sum_list_sum_nth)
  finally show ?thesis .
qed

lemma weighted_window_bounds:
  fixes a :: "real list" and w :: "nat \<Rightarrow> real"
  assumes nonneg: "\<And>k. k < length a \<Longrightarrow> 0 \<le> a ! k"
    and total: "sum_list a \<le> 1"
    and weight: "\<And>t. t < m \<Longrightarrow> j + t < length a \<Longrightarrow> 0 \<le> w t \<and> w t \<le> 1"
  shows "0 \<le> sum_list (map (\<lambda>t. if j + t < length a then a ! (j + t) * w t else 0) [0 ..< m])"
    and "sum_list (map (\<lambda>t. if j + t < length a then a ! (j + t) * w t else 0) [0 ..< m]) \<le> 1"
proof -
  let ?f = "\<lambda>t. if j + t < length a then a ! (j + t) * w t else 0"
  let ?g = "\<lambda>t. if j + t < length a then a ! (j + t) else 0"
  have f0: "0 \<le> a ! (j + t) * w t" if "t < m" and "j + t < length a" for t
    using nonneg[of "j + t"] weight[OF that] that by simp
  have fg: "a ! (j + t) * w t \<le> a ! (j + t)" if "t < m" and "j + t < length a" for t
    using nonneg[of "j + t"] weight[OF that] that by (simp add: mult_left_le)
  show "0 \<le> sum_list (map ?f [0 ..< m])"
    by (rule sum_list_nonneg) (auto simp: f0)
  have "sum_list (map ?f [0 ..< m]) \<le> sum_list (map ?g [0 ..< m])"
    by (rule sum_list_mono) (auto simp: fg)
  also have "\<dots> \<le> sum_list a"
    by (rule window_mass_le_total) (rule nonneg)
  finally show "sum_list (map ?f [0 ..< m]) \<le> 1"
    using total by simp
qed

lemma efficient_exp_le_den:
  assumes "t \<le> n" and "j + t < length u"
  shows "efficient_exp_row u j \<le> efficient_den_row n u (j + t)"
proof -
  let ?f = "\<lambda>s. if n \<le> j + t + s \<and> j + t + s < n + length u
                 then efficient_exp_row u (j + t + s - n) else 0"
  have nonneg: "0 \<le> ?f s" for s
    using efficient_exp_row_pos[of u "j + t + s - n"] by (simp add: less_imp_le)
  have "?f (n - t) \<le> sum_list (map ?f [0 ..< Suc n])"
    by (rule sum_list_upt_member_le) (use nonneg in auto)
  moreover have "?f (n - t) = efficient_exp_row u j"
    using assms by simp
  ultimately show ?thesis
    by (simp add: efficient_den_row_def del: upt_Suc)
qed

lemma efficient_row_as_weighted:
  assumes "length a = length u"
  shows "efficient_row n a u j
         = sum_list (map (\<lambda>t. if j + t < length a
                              then a ! (j + t) * (efficient_exp_row u j / efficient_den_row n u (j + t))
                              else 0) [0 ..< Suc n])"
  unfolding efficient_row_def sum_list_const_mult[symmetric] map_map comp_def assms
  by (rule arg_cong[where f = sum_list], rule map_cong[OF refl]) simp

lemma efficient_row_bounds:
  assumes "length a = length u"
    and "\<And>k. k < length a \<Longrightarrow> 0 \<le> a ! k"
    and "sum_list a \<le> 1"
  shows "0 \<le> efficient_row n a u j \<and> efficient_row n a u j \<le> 1"
proof -
  have weight: "0 \<le> efficient_exp_row u j / efficient_den_row n u (j + t)
                \<and> efficient_exp_row u j / efficient_den_row n u (j + t) \<le> 1"
    if "t < Suc n" and "j + t < length a" for t
  proof -
    from that assms(1) have le: "efficient_exp_row u j \<le> efficient_den_row n u (j + t)"
      by (intro efficient_exp_le_den) simp_all
    moreover have "0 < efficient_exp_row u j"
      by (rule efficient_exp_row_pos)
    ultimately show ?thesis
      by simp
  qed
  show ?thesis
    unfolding efficient_row_as_weighted[OF assms(1)]
    using weighted_window_bounds[of a "Suc n" j
        "\<lambda>t. efficient_exp_row u j / efficient_den_row n u (j + t)", OF assms(2,3) weight]
    by blast
qed

lemma stable_exp_le_den:
  assumes "t \<le> n" and "j + t < length u"
  shows "exp (u ! j - stable_max_row n u (j + t)) \<le> stable_den_row n u (j + t)"
proof -
  let ?f = "\<lambda>s. if n \<le> j + t + s \<and> j + t + s < n + length u
                 then exp (u ! (j + t + s - n) - stable_max_row n u (j + t)) else 0"
  have nonneg: "0 \<le> ?f s" for s
    by simp
  have "?f (n - t) \<le> sum_list (map ?f [0 ..< Suc n])"
    by (rule sum_list_upt_member_le) (use nonneg in auto)
  moreover have "?f (n - t) = exp (u ! j - stable_max_row n u (j + t))"
    using assms by simp
  ultimately show ?thesis
    by (simp add: stable_den_row_def del: upt_Suc)
qed

lemma stable_row_as_weighted:
  assumes "length a = length u"
  shows "stable_row n a u j
         = sum_list (map (\<lambda>t. if j + t < length a
                              then a ! (j + t) * (exp (u ! j - stable_max_row n u (j + t))
                                                  / stable_den_row n u (j + t))
                              else 0) [0 ..< Suc n])"
  unfolding stable_row_def assms
  by (rule arg_cong[where f = sum_list], rule map_cong[OF refl]) simp

lemma stable_row_bounds:
  assumes "length a = length u"
    and "\<And>k. k < length a \<Longrightarrow> 0 \<le> a ! k"
    and "sum_list a \<le> 1"
  shows "0 \<le> stable_row n a u j \<and> stable_row n a u j \<le> 1"
proof -
  have weight: "0 \<le> exp (u ! j - stable_max_row n u (j + t)) / stable_den_row n u (j + t)
                \<and> exp (u ! j - stable_max_row n u (j + t)) / stable_den_row n u (j + t) \<le> 1"
    if "t < Suc n" and "j + t < length a" for t
  proof -
    from that assms(1)
    have le: "exp (u ! j - stable_max_row n u (j + t)) \<le> stable_den_row n u (j + t)"
      by (intro stable_exp_le_den) simp_all
    moreover have "0 < stable_den_row n u (j + t)"
      by (rule less_le_trans[OF exp_gt_zero le])
    ultimately show ?thesis
      by simp
  qed
  show ?thesis
    unfolding stable_row_as_weighted[OF assms(1)]
    using weighted_window_bounds[of a "Suc n" j
        "\<lambda>t. exp (u ! j - stable_max_row n u (j + t)) / stable_den_row n u (j + t)",
        OF assms(2,3) weight]
    by blast
qed



section \<open>Agreement of the two variants on a small dynamic range\<close>

lemma efficient_exp_row_unclamped:
  assumes "list_all (\<lambda>v. clamp_floor \<le> exp (v - Max (set u))) u" and "l < length u"
  shows "efficient_exp_row u l = exp (u ! l - Max (set u))"
proof -
  from assms have "clamp_floor \<le> exp (u ! l - Max (set u))"
    by (simp add: list_all_length)
  then show ?thesis
    by (simp add: efficient_exp_row_def)
qed

lemma efficient_den_row_unclamped:
  assumes "list_all (\<lambda>v. clamp_floor \<le> exp (v - Max (set u))) u"
  shows "efficient_den_row n u k
         = exp (stable_max_row n u k - Max (set u)) * stable_den_row n u k"
proof -
  have "(if n \<le> k + t \<and> k + t < n + length u then efficient_exp_row u (k + t - n) else 0)
        = exp (stable_max_row n u k - Max (set u))
          * (if n \<le> k + t \<and> k + t < n + length u
             then exp (u ! (k + t - n) - stable_max_row n u k) else 0)" for t
  proof (cases "n \<le> k + t \<and> k + t < n + length u")
    case True
    then have "k + t - n < length u"
      by auto
    then have "efficient_exp_row u (k + t - n) = exp (u ! (k + t - n) - Max (set u))"
      by (rule efficient_exp_row_unclamped[OF assms])
    also have "\<dots> = exp (stable_max_row n u k - Max (set u))
                     * exp (u ! (k + t - n) - stable_max_row n u k)"
      by (simp add: exp_add[symmetric])
    finally show ?thesis
      using True by simp
  next
    case False
    then show ?thesis
      by auto
  qed
  then show ?thesis
    unfolding efficient_den_row_def stable_den_row_def
    by (simp only: sum_list_const_mult[symmetric] map_map comp_def)
qed

lemma efficient_row_eq_stable_row:
  assumes range: "list_all (\<lambda>v. clamp_floor \<le> exp (v - Max (set u))) u" and j: "j < length u"
  shows "efficient_row n a u j = stable_row n a u j"
proof -
  have "efficient_exp_row u j * (if j + t < length u
                                  then a ! (j + t) / efficient_den_row n u (j + t) else 0)
        = (if j + t < length u
           then a ! (j + t) * exp (u ! j - stable_max_row n u (j + t)) / stable_den_row n u (j + t)
           else 0)" for t
  proof (cases "j + t < length u")
    case True
    have "exp (u ! j - Max (set u))
          = exp (stable_max_row n u (j + t) - Max (set u)) * exp (u ! j - stable_max_row n u (j + t))"
      by (simp add: exp_add[symmetric])
    then show ?thesis
      using True by (simp add: efficient_exp_row_unclamped[OF range j]
                               efficient_den_row_unclamped[OF range])
  next
    case False
    then show ?thesis
      by simp
  qed
  then show ?thesis
    unfolding efficient_row_def stable_row_def
    by (simp only: sum_list_const_mult[symmetric] map_map comp_def)
qed

lemma efficient_real_eq_stable_real:
  assumes "small_dynamic_range u"
  shows "efficient_real n a u = stable_real n a u"
  unfolding efficient_real_def stable_real_def
proof (rule tab_cong[OF refl])
  fix i j
  assume "i < length (shape u)" and "j < shape u ! i"
  then have i: "i < length u" and j: "j < length (u ! i)"
    by (simp_all add: shape_def)
  from i assms have "list_all (\<lambda>v. clamp_floor \<le> exp (v - Max (set (u ! i)))) (u ! i)"
    by (simp add: small_dynamic_range_def list_all_length)
  then show "efficient_row n (a ! i) (u ! i) j = stable_row n (a ! i) (u ! i) j"
    using j by (rule efficient_row_eq_stable_row)
qed

text \<open>
  Claim C1. For real \<open>emit_probs\<close> and \<open>softmax_logits\<close> of the same shape, with logits of
  small dynamic range (the clamp floor \<open>1e-5\<close> never activates) and a positive \<open>chunk_size\<close>
  (written \<open>Suc n\<close>), \<open>efficient_chunkwise_attention\<close> and \<open>stable_chunkwise_attention\<close> both
  return an array and return the same one: with exact real arithmetic every element agrees
  exactly. The rows of \<open>emit_probs\<close> need not even sum to 1.
\<close>

theorem efficient_equals_stable_on_small_range:
  assumes "shape a = shape u" and "small_dynamic_range u"
  shows "efficient_chunkwise_attention (int (Suc n)) (lift a) (lift u)
         = stable_chunkwise_attention (int (Suc n)) (lift a) (lift u)
         \<and> (\<exists>p. stable_chunkwise_attention (int (Suc n)) (lift a) (lift u) = Inr (lift p)
                \<and> shape p = shape u)"
  using efficient_lift[OF assms(1), of n] stable_lift[OF assms(1), of n]
    efficient_real_eq_stable_real[OF assms(2), of n a]
  by (auto simp: stable_real_def)

lemma small_dynamic_range_example: "small_dynamic_range [[0, 1]]"
proof -
  have "exp (1 :: real) \<le> 3"
    by (rule exp_le)
  then have "1 / 3 \<le> inverse (exp (1 :: real))"
    by (simp add: field_simps)
  then have "clamp_floor \<le> exp (- 1 :: real)"
    by (simp add: clamp_floor_def exp_minus)
  then show ?thesis
    by (simp add: small_dynamic_range_def clamp_floor_def)
qed

theorem efficient_equals_stable_on_small_range_witness:
  "shape [[1/4, 3/4 :: real]] = shape [[0, 1 :: real]] \<and> small_dynamic_range [[0, 1]]
   \<and> efficient_chunkwise_attention 2 (lift [[1/4, 3/4]]) (lift [[0, 1]])
     = stable_chunkwise_attention 2 (lift [[1/4, 3/4]]) (lift [[0, 1]])
   \<and> (\<exists>p. stable_chunkwise_attention 2 (lift [[1/4, 3/4]]) (lift [[0, 1]]) = Inr (lift p)
          \<and> shape p = shape [[0, 1 :: real]])"
  using efficient_equals_stable_on_small_range[of "[[1/4, 3/4]]" "[[0, 1]]" 1]
    small_dynamic_range_example
  by (simp add: shape_def)

section \<open>Divergence of the two variants on a large dynamic range\<close>

lemma nth_tab: "i < length sh \<Longrightarrow> j < sh ! i \<Longrightarrow> tab sh F ! i ! j = F i j"
  by (simp add: tab_def)

lemma exp_huge_negative: "0 < exp (- (10 ^ 10) :: real) \<and> exp (- (10 ^ 10) :: real) < 1 / 10 ^ 10"
proof -
  have "1 + 10 ^ 10 \<le> exp (10 ^ 10 :: real)"
    by (rule exp_ge_add_one_self)
  then have "inverse (exp (10 ^ 10 :: real)) \<le> inverse (1 + 10 ^ 10)"
    by (intro le_imp_inverse_le) simp_all
  then show ?thesis
    by (simp add: exp_minus)
qed

lemma efficient_row_diverging:
  "efficient_row 1 [0, 1] [0, - (10 ^ 10)] 1 = clamp_floor / (1 + clamp_floor)"
proof -
  have "max (exp (- (10 ^ 10) :: real)) clamp_floor = clamp_floor"
    using exp_huge_negative by (simp add: clamp_floor_def)
  moreover have "max (1 :: real) clamp_floor = 1"
    by (simp add: clamp_floor_def)
  ultimately show ?thesis
    by (simp add: efficient_row_def efficient_den_row_def efficient_exp_row_def)
qed

lemma stable_row_diverging:
  "stable_row 1 [0, 1] [0, - (10 ^ 10)] 1
   = exp (- (10 ^ 10)) / (exp 0 + exp (- (10 ^ 10)))"
  by (simp add: stable_row_def stable_den_row_def stable_max_row_def window_def)

text \<open>
  Claim C2. On \<open>emit_probs = [[0, 1]]\<close> and \<open>softmax_logits = [[0, -1e10]]\<close> with
  \<open>chunk_size = 2\<close>, neither function fails, the stable variant returns at position \<open>[0, 1]\<close>
  the exact chunk softmax weight \<open>exp u\<^sub>1 / (exp u\<^sub>0 + exp u\<^sub>1)\<close>, and the efficient variant,
  whose clamp activates, returns a value that differs from it by more than \<open>9e-6\<close>.
\<close>

theorem efficient_diverges_from_stable:
  "\<exists>p q. efficient_chunkwise_attention 2 (lift [[0, 1]]) (lift [[0, - (10 ^ 10)]]) = Inr (lift p)
         \<and> stable_chunkwise_attention 2 (lift [[0, 1]]) (lift [[0, - (10 ^ 10)]]) = Inr (lift q)
         \<and> q ! 0 ! 1 = exp (- (10 ^ 10)) / (exp 0 + exp (- (10 ^ 10)))
         \<and> 9 / 1000000 < \<bar>p ! 0 ! 1 - q ! 0 ! 1\<bar>"
proof -
  let ?a = "[[0, 1 :: real]]" and ?u = "[[0, - (10 ^ 10) :: real]]"
  have sh: "shape ?a = shape ?u"
    by (simp add: shape_def)
  have p: "efficient_real 1 ?a ?u ! 0 ! 1 = clamp_floor / (1 + clamp_floor)"
    using efficient_row_diverging by (simp add: efficient_real_def nth_tab shape_def)
  have q: "stable_real 1 ?a ?u ! 0 ! 1 = exp (- (10 ^ 10)) / (exp 0 + exp (- (10 ^ 10)))"
    using stable_row_diverging by (simp add: stable_real_def nth_tab shape_def)
  have "exp (- (10 ^ 10) :: real) / (exp 0 + exp (- (10 ^ 10))) < 1 / 10 ^ 10"
  proof -
    have "x / (exp 0 + x) \<le> x" if "0 < x" for x :: real
      using that by (simp add: divide_le_eq)
    from this[OF exp_gt_zero]
    have "exp (- (10 ^ 10) :: real) / (exp 0 + exp (- (10 ^ 10))) \<le> exp (- (10 ^ 10))" .
    with exp_huge_negative show ?thesis
      by linarith
  qed
  moreover have "0 \<le> exp (- (10 ^ 10) :: real) / (exp 0 + exp (- (10 ^ 10)))"
    by (simp add: add_nonneg_nonneg)
  ultimately have "9 / 1000000 < \<bar>efficient_real 1 ?a ?u ! 0 ! 1 - stable_real 1 ?a ?u ! 0 ! 1\<bar>"
    unfolding p q by (simp add: clamp_floor_def)
  with q efficient_lift[OF sh, of 1] stable_lift[OF sh, of 1] show ?thesis
    by (intro exI[of _ "efficient_real 1 ?a ?u"] exI[of _ "stable_real 1 ?a ?u"]) simp
qed

section \<open>Rounded arithmetic with the identity is the exact model\<close>

lemma rounded_id [simp]: "rounded (\<lambda>v. v) op = op"
  by (simp add: rounded_def fun_eq_iff)

lemma reduce_sum_rnd_id [simp]: "reduce_sum_rnd (\<lambda>v. v) = reduce_sum"
  by (simp add: reduce_sum_rnd_def reduce_sum_def fun_eq_iff)

lemma moving_sum_rnd_id: "moving_sum_rnd (\<lambda>v. v) = moving_sum"
  by (simp add: moving_sum_rnd_def moving_sum_def conv1d_valid_rnd_def conv1d_valid_def fun_eq_iff)

lemma efficient_chunkwise_attention_rnd_id:
  "efficient_chunkwise_attention_rnd (\<lambda>v. v) = efficient_chunkwise_attention"
  by (simp add: efficient_chunkwise_attention_rnd_def efficient_chunkwise_attention_def
        efficient_softmax_exp_rnd_def efficient_softmax_exp_def moving_sum_rnd_id fun_eq_iff)

lemma stable_chunkwise_attention_rnd_id:
  "stable_chunkwise_attention_rnd (\<lambda>v. v) = stable_chunkwise_attention"
  by (simp add: stable_chunkwise_attention_rnd_def stable_chunkwise_attention_def fun_eq_iff)

lemma exponent_bounds:
  assumes "x \<noteq> 0"
  shows "2 powi (exponent x) \<le> \<bar>x\<bar>" and "\<bar>x\<bar> < 2 powi (exponent x + 1)"
proof -
  have "2 powi (exponent x) \<le> \<bar>x\<bar> \<and> \<bar>x\<bar> < 2 powi (exponent x + 1)"
  proof (cases "1 \<le> \<bar>x\<bar>")
    case True
    define n where "n = \<lfloor>\<bar>x\<bar>\<rfloor>"
    have n: "1 \<le> n" "of_int n \<le> \<bar>x\<bar>" "\<bar>x\<bar> < of_int n + 1"
      using True by (simp_all add: n_def le_floor_iff)
    then have pos: "0 < n"
      by simp
    have b: "1 \<le> bitlen n"
      using pos bitlen_eq_zero_iff[of n] bitlen_nonneg[of n] by linarith
    have e: "exponent x = bitlen n - 1"
      using True by (simp add: exponent_def n_def)
    from bitlen_bounds[OF pos] have lo: "(2::int) ^ nat (bitlen n - 1) \<le> n"
      and hi: "n < (2::int) ^ nat (bitlen n)"
      by simp_all
    have "2 powi (bitlen n - 1) = real_of_int (2 ^ nat (bitlen n - 1))"
      using b by (simp add: power_int_def)
    also have "\<dots> \<le> of_int n"
      using lo by (simp only: of_int_le_iff)
    finally have 1: "2 powi (exponent x) \<le> \<bar>x\<bar>"
      using n(2) e by simp
    have "of_int n + 1 \<le> real_of_int (2 ^ nat (bitlen n))"
      using hi by (metis of_int_1 of_int_add of_int_le_iff zless_imp_add1_zle)
    also have "\<dots> = 2 powi (bitlen n)"
      using b by (simp add: power_int_def)
    finally have 2: "\<bar>x\<bar> < 2 powi (exponent x + 1)"
      using n(3) e by simp
    from 1 2 show ?thesis ..
  next
    case False
    define y where "y = 1 / \<bar>x\<bar>"
    define m where "m = \<lceil>y\<rceil> - 1"
    have x: "0 < \<bar>x\<bar>" "\<bar>x\<bar> < 1"
      using assms False by simp_all
    then have y: "1 < y" "\<bar>x\<bar> = 1 / y" "0 < y"
      by (simp_all add: y_def)
    have m: "of_int m < y" "y \<le> of_int m + 1" "1 \<le> m"
      using y(1) by (simp_all add: m_def less_ceiling_iff) linarith+
    then have pos: "0 < m"
      by simp
    have b: "1 \<le> bitlen m"
      using pos bitlen_eq_zero_iff[of m] bitlen_nonneg[of m] by linarith
    have e: "exponent x = - bitlen m"
      using False by (simp add: exponent_def m_def y_def)
    from bitlen_bounds[OF pos] have lo: "(2::int) ^ nat (bitlen m - 1) \<le> m"
      and hi: "m < (2::int) ^ nat (bitlen m)"
      by simp_all
    have "y \<le> of_int m + 1"
      by (rule m(2))
    also have "\<dots> \<le> real_of_int (2 ^ nat (bitlen m))"
      using hi by (metis of_int_1 of_int_add of_int_le_iff zless_imp_add1_zle)
    finally have yhi: "y \<le> 2 ^ nat (bitlen m)"
      by simp
    have "real_of_int (2 ^ nat (bitlen m - 1)) \<le> of_int m"
      using lo by (simp only: of_int_le_iff)
    then have "(2::real) ^ nat (bitlen m - 1) \<le> of_int m"
      by simp
    then have ylo: "2 ^ nat (bitlen m - 1) < y"
      using m(1) by linarith
    have "(2::real) powi (- bitlen m) = 1 / 2 ^ nat (bitlen m)"
      using b by (simp add: power_int_def power_inverse inverse_eq_divide power_one_over)
    also have "\<dots> \<le> 1 / y"
      using yhi y(3) by (simp add: frac_le)
    finally have 1: "2 powi (exponent x) \<le> \<bar>x\<bar>"
      using y(2) e by simp
    have "1 / y < 1 / 2 ^ nat (bitlen m - 1)"
      using ylo by (simp add: frac_less2)
    also have "\<dots> = (2::real) powi (- bitlen m + 1)"
    proof (cases "bitlen m = 1")
      case True
      then show ?thesis by simp
    next
      case False
      with b have "nat (bitlen m - 1) = nat (- (- bitlen m + 1))" "- bitlen m + 1 < 0"
        by simp_all
      then show ?thesis
        by (simp add: power_int_def power_inverse inverse_eq_divide power_one_over)
    qed
    finally have 2: "\<bar>x\<bar> < 2 powi (exponent x + 1)"
      using y(2) e by simp
    from 1 2 show ?thesis ..
  qed
  then show "2 powi (exponent x) \<le> \<bar>x\<bar>" and "\<bar>x\<bar> < 2 powi (exponent x + 1)"
    by simp_all
qed

lemma round_even_le:
  assumes "y \<le> of_int n"
  shows "round_even y \<le> n"
proof -
  have f: "\<lfloor>y\<rfloor> \<le> n"
    using assms by (simp add: floor_le_iff)
  show ?thesis
  proof (cases "\<lfloor>y\<rfloor> = n")
    case True
    then have "y - of_int \<lfloor>y\<rfloor> \<le> 0"
      using assms by simp
    then show ?thesis
      using True by (simp add: round_even_def Let_def)
  next
    case False
    with f have "\<lfloor>y\<rfloor> + 1 \<le> n"
      by simp
    then show ?thesis
      by (auto simp: round_even_def Let_def)
  qed
qed

lemma round_even_nonneg:
  assumes "0 \<le> y"
  shows "0 \<le> round_even y"
proof -
  have "0 \<le> \<lfloor>y\<rfloor>"
    using assms by simp
  then show ?thesis
    by (auto simp: round_even_def Let_def)
qed

lemma f32_small:
  assumes "0 < x" and "x \<le> 2 powi k" and "- 126 \<le> k" and "k \<le> 127"
  shows "\<exists>t. f32 x = Fin t \<and> 0 \<le> t \<and> t \<le> 2 powi k"
proof -
  define e where "e = max (exponent x) (- 126)"
  define q :: real where "q = 2 powi (e - 23)"
  define r where "r = of_int (round_even (x / q)) * q"
  have "2 powi (exponent x) \<le> (2 powi k :: real)"
    using exponent_bounds(1)[of x] assms(1,2) by simp
  then have "exponent x \<le> k"
    using power_int_strict_increasing[of k "exponent x" "2::real"] by (cases "exponent x \<le> k") auto
  then have e: "e \<le> k"
    using assms(3) by (simp add: e_def)
  have q: "0 < q"
    by (simp add: q_def)
  define p :: int where "p = 2 ^ nat (k - e + 23)"
  have pq: "of_int p * q = 2 powi k"
  proof -
    have "of_int p = (2 powi (k - e + 23) :: real)"
      using e by (simp add: p_def power_int_def)
    then have "of_int p * q = 2 powi (k - e + 23) * 2 powi (e - 23)"
      by (simp add: q_def)
    also have "\<dots> = 2 powi ((k - e + 23) + (e - 23))"
      by (subst power_int_add) simp_all
    finally show ?thesis
      by simp
  qed
  have "x / q \<le> of_int p"
    using assms(2) q pq by (simp add: field_simps)
  then have up: "round_even (x / q) \<le> p"
    by (rule round_even_le)
  have lo: "0 \<le> round_even (x / q)"
    using assms(1) q by (intro round_even_nonneg) simp
  have r0: "0 \<le> r"
    using lo q by (simp add: r_def)
  have "r \<le> of_int p * q"
    using up q by (simp add: r_def)
  then have rk: "r \<le> 2 powi k"
    by (simp add: pq)
  also have "(2 powi k :: real) \<le> 2 powi 127"
    using assms(4) by (intro power_int_increasing) simp_all
  also have "\<dots> < 2 powi 128"
    by simp
  finally have "\<not> 2 powi 128 \<le> \<bar>r\<bar>"
    using r0 by simp
  then have "f32 x = Fin r"
    using assms(1) by (simp add: f32_def Let_def r_def q_def e_def)
  with r0 rk show ?thesis
    by blast
qed

lemma exp_minus_32: "0 < exp (- 32 :: real)" "exp (- 32 :: real) \<le> 2 powi (- 32)"
proof -
  show "0 < exp (- 32 :: real)"
    by simp
  have "2 \<le> exp (1 :: real)"
    using exp_ge_add_one_self[of "1 :: real"] by simp
  then have "(2 :: real) ^ 32 \<le> exp 1 ^ 32"
    by (intro power_mono) simp_all
  also have "exp (1 :: real) ^ 32 = exp (of_nat 32 * 1)"
    by (rule exp_of_nat_mult[symmetric])
  finally have "(2 :: real) ^ 32 \<le> exp 32"
    by simp
  then have "inverse (exp (32 :: real)) \<le> inverse (2 ^ 32)"
    by (intro le_imp_inverse_le) simp_all
  then show "exp (- 32 :: real) \<le> 2 powi (- 32)"
    by (simp add: exp_minus power_int_def power_one_over)
qed

lemma clamped_softmax_exp:
  "efficient_softmax_exp_rnd fl_round (lift [[0, - 32]]) = Inr [[Fin 1, Fin (10995116 / 2 ^ 40)]]"
proof -
  obtain t where t: "f32 (exp (- 32)) = Fin t" "0 \<le> t" "t \<le> 2 powi (- 32)"
    using f32_small[OF exp_minus_32, of] by auto
  have shifted: "elementwise2 (rounded fl_round fl_sub) (lift [[0, - 32]])
                   (reduce_max_keepdims (lift [[0, - 32]])) = Inr [[Fin 0, Fin (- 32)]]"
    by code_simp
  have one: "f32 1 = Fin 1"
    by code_simp
  have floor: "f32 clamp_floor = Fin (10995116 / 2 ^ 40)"
    by code_simp
  have "t \<le> 10995116 / 2 ^ 40"
    using t(3) by (simp add: power_int_def power_one_over)
  then have "max t (10995116 / 2 ^ 40) = 10995116 / 2 ^ 40"
    by simp
  then show ?thesis
    unfolding efficient_softmax_exp_rnd_def shifted bind_result_Inr
    by (simp add: one floor t(1))
qed

text \<open>
  Claim C5, as stated, fails in float32: the logits \<open>[[0, -32]]\<close> and the emit probabilities
  \<open>[[5643/16384, 10741/16384]]\<close> are float32 numbers, the row sums to 1, and with
  \<open>chunk_size = 1\<close> the efficient variant returns \<open>10998783/16777216\<close> at position \<open>[0, 1]\<close>, one
  unit in the last place below \<open>10741/16384\<close>.
\<close>

theorem efficient_chunk_size_one_rounds:
  "list_all is_f32 [5643 / 16384, 10741 / 16384, 0, - 32]
   \<and> sum_list [5643 / 16384, 10741 / 16384 :: real] = 1
   \<and> efficient_chunkwise_attention_rnd fl_round 1
         (lift [[5643 / 16384, 10741 / 16384]]) (lift [[0, - 32]])
       = Inr (lift [[5643 / 16384, 10998783 / 16777216]])
   \<and> (10998783 / 16777216 :: real) \<noteq> 10741 / 16384"
proof (intro conjI)
  show "list_all is_f32 [5643 / 16384, 10741 / 16384, 0, - 32]"
    by code_simp
  show "sum_list [5643 / 16384, 10741 / 16384 :: real] = 1"
    by simp
  show "efficient_chunkwise_attention_rnd fl_round 1
         (lift [[5643 / 16384, 10741 / 16384]]) (lift [[0, - 32]])
        = Inr (lift [[5643 / 16384, 10998783 / 16777216]])"
    unfolding efficient_chunkwise_attention_rnd_def clamped_softmax_exp bind_result_Inr
    by code_simp
  show "(10998783 / 16777216 :: real) \<noteq> 10741 / 16384"
    by simp
qed

lemma stable_rnd_split:
  assumes fixed: "\<And>i j. i < length u \<Longrightarrow> j < length (u ! i) \<Longrightarrow> rnd (Fin (u ! i ! j)) = Fin (u ! i ! j)"
  shows "stable_chunkwise_attention_rnd rnd (int (Suc n)) e (lift u)
   = bind_result (elementwise3 (rounded rnd fl_mul) (frame e (Suc n) True (Fin 0))
                    (stable_numerators_rnd rnd n u))
       (\<lambda>product. bind_result (elementwise3 (rounded rnd fl_div) product
                                  (stable_framed_denominators_rnd rnd n u))
          (\<lambda>terms. Inr (map (map (reduce_sum_rnd rnd)) terms)))"
proof -
  let ?sh = "shape u"
  let ?w = "Suc n"
  let ?U = "\<lambda>i j. Fin (u ! i ! j)"
  let ?m = "\<lambda>i k. stable_max_row n (u ! i) k"
  have w: "int (Suc n) - 1 = int n" "(0::int) = int 0" "nat (int (Suc n)) = Suc n"
    by simp_all
  have len: "?sh ! i = length (u ! i)" if "i < length ?sh" for i
    using that by (simp add: shape_def)
  have lmax: "moving_max (lift u) (int (Suc n)) = Inr (tab ?sh (\<lambda>i k. Fin (?m i k)))"
    by (simp only: moving_max_lift moving_max_spec_tab lift_tab)
  have padded: "tf_pad (lift u) (int (Suc n) - 1) 0 NegInf
                = Inr (map (\<lambda>i. replicate n NegInf @ map (?U i) [0 ..< ?sh ! i] @ replicate 0 NegInf)
                         [0 ..< length ?sh])"
    by (subst w(1), subst w(2), subst lift_as_tab, rule tf_pad_tab)
  let ?FL = "\<lambda>i k t. if n \<le> k + t \<and> k + t < n + ?sh ! i then ?U i (k + t - n) else NegInf"
  have framed: "frame (map (\<lambda>i. replicate n NegInf @ map (?U i) [0 ..< ?sh ! i] @ replicate 0 NegInf)
                         [0 ..< length ?sh]) (Suc n) False (Fin 0)
                = tab ?sh (\<lambda>i k. map (?FL i k) [0 ..< ?w])"
    by (rule frame_tab_padded)
  have normalized: "elementwise3 (rounded rnd fl_sub) (tab ?sh (\<lambda>i k. map (?FL i k) [0 ..< ?w]))
                      (expand_dims (tab ?sh (\<lambda>i k. Fin (?m i k))))
                    = Inr (tab ?sh (\<lambda>i k. map (\<lambda>t. rounded rnd fl_sub (?FL i k t) (Fin (?m i k)))
                                         [0 ..< ?w]))"
    unfolding expand_dims_tab by (rule elementwise3_tab_right)
  have dens: "map (map (\<lambda>fr. reduce_sum_rnd rnd (map (\<lambda>v. rnd (fl_exp v)) fr)))
                (tab ?sh (\<lambda>i k. map (\<lambda>t. rounded rnd fl_sub (?FL i k t) (Fin (?m i k))) [0 ..< ?w]))
              = tab ?sh (\<lambda>i k. stable_den_rnd rnd n (u ! i) k)"
    unfolding map_map_tab
    by (rule tab_cong[OF refl])
       (simp add: stable_den_rnd_def rounded_def len comp_def del: upt_Suc)
  have fdens: "frame (tab ?sh (\<lambda>i k. stable_den_rnd rnd n (u ! i) k)) (Suc n) True PosInf
               = stable_framed_denominators_rnd rnd n u"
    unfolding frame_tab_pad_end stable_framed_denominators_rnd_def
    by (rule tab_cong[OF refl]) (simp add: len del: upt_Suc)
  have copied: "elementwise3 (rounded rnd fl_mul) (expand_dims (lift u))
                  (tf_ones_like3 (lift u) (Suc n))
                = Inr (tab ?sh (\<lambda>i j. map (\<lambda>t. ?U i j) [0 ..< ?w]))"
    unfolding lift_as_tab expand_dims_tab tf_ones_like3_tab elementwise3_tab_left
    by (rule arg_cong[where f = Inr], rule tab_cong[OF refl])
       (simp add: rounded_def fixed shape_def del: upt_Suc)
  let ?M = "\<lambda>i j t. if j + t < ?sh ! i then Fin (?m i (j + t)) else PosInf"
  have fmax: "frame (tab ?sh (\<lambda>i k. Fin (?m i k))) (Suc n) True PosInf
              = tab ?sh (\<lambda>i j. map (?M i j) [0 ..< ?w])"
    by (rule frame_tab_pad_end)
  have shifted: "elementwise3 (rounded rnd fl_sub) (tab ?sh (\<lambda>i j. map (\<lambda>t. ?U i j) [0 ..< ?w]))
                   (tab ?sh (\<lambda>i j. map (?M i j) [0 ..< ?w]))
                 = Inr (tab ?sh (\<lambda>i j. map (\<lambda>t. rounded rnd fl_sub (?U i j) (?M i j t)) [0 ..< ?w]))"
    by (rule elementwise3_tab)
  have nums: "map (map (map (\<lambda>v. rnd (fl_exp v))))
                (tab ?sh (\<lambda>i j. map (\<lambda>t. rounded rnd fl_sub (?U i j) (?M i j t)) [0 ..< ?w]))
              = stable_numerators_rnd rnd n u"
    unfolding map3_tab stable_numerators_rnd_def
    by (rule tab_cong[OF refl]) (simp add: len rounded_def del: upt_Suc cong: if_cong)
  show ?thesis
    unfolding stable_chunkwise_attention_rnd_def w(3) lmax bind_result_Inr padded Let_def framed
      normalized dens fdens copied fmax shifted nums ..
qed

lemma f32_zero [simp]: "f32 0 = Fin 0"
  by (simp add: f32_def)

lemma f32_one [simp]: "f32 1 = Fin 1"
  by code_simp

lemma list_all2_is_f32:
  assumes "list_all (list_all is_f32) u" and "i < length u" and "j < length (u ! i)"
  shows "fl_round (Fin (u ! i ! j)) = Fin (u ! i ! j)"
  using assms by (simp add: list_all_length is_f32_def)

lemma stable_f32_chunk_one:
  assumes same: "shape a = shape u"
    and fa: "list_all (list_all is_f32) a" and fu: "list_all (list_all is_f32) u"
  shows "stable_chunkwise_attention_rnd fl_round 1 (lift a) (lift u) = Inr (lift a)"
proof -
  let ?sh = "shape u"
  let ?A = "\<lambda>i j t. if j + t < ?sh ! i then Fin (a ! i ! (j + t)) else Fin 0"
  have len: "?sh ! i = length (u ! i)" "i < length u" if "i < length ?sh" for i
    using that by (simp_all add: shape_def)
  have lena: "length (a ! i) = length (u ! i)" "i < length a" if "i < length ?sh" for i
    using that shape_eq_nth[OF same] by (simp_all add: shape_def)
  have split: "stable_chunkwise_attention_rnd fl_round 1 (lift a) (lift u)
     = bind_result (elementwise3 (rounded fl_round fl_mul) (frame (lift a) (Suc 0) True (Fin 0))
                      (stable_numerators_rnd fl_round 0 u))
         (\<lambda>product. bind_result (elementwise3 (rounded fl_round fl_div) product
                                    (stable_framed_denominators_rnd fl_round 0 u))
            (\<lambda>terms. Inr (map (map (reduce_sum_rnd fl_round)) terms)))"
    using stable_rnd_split[of u fl_round 0 "lift a"] list_all2_is_f32[OF fu] by simp
  have fprobs: "frame (lift a) (Suc 0) True (Fin 0) = tab ?sh (\<lambda>i j. map (?A i j) [0 ..< Suc 0])"
    unfolding lift_as_tab[of a] same by (rule frame_tab_pad_end)
  have nums: "stable_numerators_rnd fl_round 0 u = tab ?sh (\<lambda>i j. map (\<lambda>t. Fin 1) [0 ..< Suc 0])"
    unfolding stable_numerators_rnd_def
    by (rule tab_cong[OF refl]) (simp add: len stable_max_row_def window_singleton)
  have dens: "stable_framed_denominators_rnd fl_round 0 u
              = tab ?sh (\<lambda>i j. map (\<lambda>t. Fin 1) [0 ..< Suc 0])"
    unfolding stable_framed_denominators_rnd_def
    by (rule tab_cong[OF refl])
       (simp add: len stable_den_rnd_def reduce_sum_rnd_def rounded_def stable_max_row_def
          window_singleton)
  have product: "elementwise3 (rounded fl_round fl_mul) (tab ?sh (\<lambda>i j. map (?A i j) [0 ..< Suc 0]))
                   (tab ?sh (\<lambda>i j. map (\<lambda>t. Fin 1) [0 ..< Suc 0]))
                 = Inr (tab ?sh (\<lambda>i j. map (\<lambda>t. Fin (a ! i ! j)) [0 ..< Suc 0]))"
    unfolding elementwise3_tab
    by (rule arg_cong[where f = Inr], rule tab_cong[OF refl])
       (simp add: rounded_def len lena list_all2_is_f32[OF fa, simplified])
  have quot: "elementwise3 (rounded fl_round fl_div)
                (tab ?sh (\<lambda>i j. map (\<lambda>t. Fin (a ! i ! j)) [0 ..< Suc 0]))
                (tab ?sh (\<lambda>i j. map (\<lambda>t. Fin 1) [0 ..< Suc 0]))
              = Inr (tab ?sh (\<lambda>i j. map (\<lambda>t. Fin (a ! i ! j)) [0 ..< Suc 0]))"
    unfolding elementwise3_tab
    by (rule arg_cong[where f = Inr], rule tab_cong[OF refl])
       (simp add: rounded_def len lena list_all2_is_f32[OF fa, simplified])
  have result: "map (map (reduce_sum_rnd fl_round))
                  (tab ?sh (\<lambda>i j. map (\<lambda>t. Fin (a ! i ! j)) [0 ..< Suc 0])) = lift a"
    unfolding map_map_tab lift_as_tab[of a] same
    by (rule tab_cong[OF refl])
       (simp add: reduce_sum_rnd_def rounded_def len lena list_all2_is_f32[OF fa, simplified])
  show ?thesis
    unfolding split fprobs nums dens product bind_result_Inr quot result ..
qed

text \<open>
  Claim C5, as amended. With \<open>chunk_size = 1\<close>, on float32 \<open>emit_probs\<close> and \<open>softmax_logits\<close>
  of the same shape, \<open>stable_chunkwise_attention\<close> returns \<open>emit_probs\<close> exactly, float32
  rounding included; \<open>efficient_chunkwise_attention\<close> computes \<open>s * (emit_probs / s)\<close>, which
  is \<open>emit_probs\<close> when the arithmetic is exact.
\<close>

theorem chunk_size_one_stable_exact_efficient_unrounded:
  assumes "shape a = shape u"
    and "list_all (list_all is_f32) a" and "list_all (list_all is_f32) u"
  shows "stable_chunkwise_attention_rnd fl_round 1 (lift a) (lift u) = Inr (lift a)
         \<and> efficient_chunkwise_attention 1 (lift a) (lift u) = Inr (lift a)"
  using stable_f32_chunk_one[OF assms] efficient_lift[OF assms(1), of 0]
  by (simp add: efficient_real_chunk_one[OF assms(1)])

theorem chunk_size_one_stable_exact_efficient_unrounded_witness:
  "shape [[1/4, 3/4 :: real]] = shape [[0, 5 :: real]]
   \<and> list_all (list_all is_f32) [[1/4, 3/4]] \<and> list_all (list_all is_f32) [[0, 5]]
   \<and> stable_chunkwise_attention_rnd fl_round 1 (lift [[1/4, 3/4]]) (lift [[0, 5]])
       = Inr (lift [[1/4, 3/4]])
   \<and> efficient_chunkwise_attention 1 (lift [[1/4, 3/4]]) (lift [[0, 5]]) = Inr (lift [[1/4, 3/4]])"
proof -
  have sh: "shape [[1/4, 3/4 :: real]] = shape [[0, 5 :: real]]"
    by (simp add: shape_def)
  have fa: "list_all (list_all is_f32) [[1/4, 3/4]]" and fu: "list_all (list_all is_f32) [[0, 5]]"
    by code_simp+
  from chunk_size_one_stable_exact_efficient_unrounded[OF sh fa fu] sh fa fu
  show ?thesis
    by blast
qed

section \<open>Invariance under a shift of the logits, in float32\<close>

lemma efficient_softmax_exp_rnd_tab:
  "efficient_softmax_exp_rnd rnd (tab sh F)
   = Inr (tab sh (\<lambda>i j. fl_max (rnd (fl_exp (rnd (fl_sub (F i j)
                                   (max_list (map (F i) [0 ..< sh ! i]))))))
                              (rnd (Fin clamp_floor))))"
proof -
  have "elementwise2 (rounded rnd fl_sub) (tab sh F) (reduce_max_keepdims (tab sh F))
        = Inr (tab sh (\<lambda>i j. rnd (fl_sub (F i j) (max_list (map (F i) [0 ..< sh ! i])))))"
    unfolding elementwise2_def reduce_max_keepdims_def tab_def map_map comp_def broadcast_maps
    by (rule sequence_map_Inr) (simp add: broadcast_singleton_right rounded_def)
  then show ?thesis
    by (simp add: efficient_softmax_exp_rnd_def map_map_tab)
qed

lemma efficient_softmax_exp_rnd_lift:
  "efficient_softmax_exp_rnd rnd (lift u)
   = Inr (tab (shape u) (\<lambda>i j. fl_max (rnd (fl_exp (rnd (Fin (u ! i ! j - Max (set (u ! i)))))))
                                     (rnd (Fin clamp_floor))))"
  unfolding lift_as_tab efficient_softmax_exp_rnd_tab
proof (rule arg_cong[where f = Inr], rule tab_cong[OF refl])
  fix i j
  assume i: "i < length (shape u)" and j: "j < shape u ! i"
  then have len: "shape u ! i = length (u ! i)"
    by (simp add: shape_def)
  with j have ne: "u ! i \<noteq> []"
    by auto
  have "map (\<lambda>j. Fin (u ! i ! j)) [0 ..< shape u ! i] = map Fin (u ! i)"
    unfolding len by (rule nth_equalityI) simp_all
  then show "fl_max (rnd (fl_exp (rnd (fl_sub (Fin (u ! i ! j))
               (max_list (map (\<lambda>j. Fin (u ! i ! j)) [0 ..< shape u ! i]))))))
               (rnd (Fin clamp_floor))
             = fl_max (rnd (fl_exp (rnd (Fin (u ! i ! j - Max (set (u ! i)))))))
                 (rnd (Fin clamp_floor))"
    using ne by (simp add: max_list_Fin)
qed

lemma efficient_softmax_exp_rnd_shift:
  "efficient_softmax_exp_rnd rnd (lift (add_row_constant c u))
   = efficient_softmax_exp_rnd rnd (lift u)"
  unfolding efficient_softmax_exp_rnd_lift shape_add_row_constant
proof (rule arg_cong[where f = Inr], rule tab_cong[OF refl])
  fix i j
  assume "i < length (shape u)" and "j < shape u ! i"
  then have i: "i < length u" and j: "j < length (u ! i)"
    by (simp_all add: shape_def)
  then have ne: "u ! i \<noteq> []"
    by auto
  have "add_row_constant c u ! i ! j - Max (set (add_row_constant c u ! i))
        = u ! i ! j - Max (set (u ! i))"
    using j ne by (simp add: nth_add_row_constant[OF i] Max_shift)
  then show "fl_max (rnd (fl_exp (rnd (Fin (add_row_constant c u ! i ! j
                       - Max (set (add_row_constant c u ! i))))))) (rnd (Fin clamp_floor))
             = fl_max (rnd (fl_exp (rnd (Fin (u ! i ! j - Max (set (u ! i)))))))
                 (rnd (Fin clamp_floor))"
    by simp
qed

lemma stable_den_rnd_shift:
  assumes "k < length r"
  shows "stable_den_rnd rnd n (map (\<lambda>v. v + c) r) k = stable_den_rnd rnd n r k"
  unfolding stable_den_rnd_def stable_max_row_shift[OF assms]
  by (rule arg_cong[where f = "reduce_sum_rnd rnd"], rule map_cong[OF refl]) auto

lemma stable_numerators_rnd_shift:
  "stable_numerators_rnd rnd n (add_row_constant c u) = stable_numerators_rnd rnd n u"
  unfolding stable_numerators_rnd_def shape_add_row_constant
proof (rule tab_cong[OF refl])
  fix i j
  assume "i < length (shape u)" and "j < shape u ! i"
  then have i: "i < length u" and j: "j < length (u ! i)"
    by (simp_all add: shape_def)
  show "map (\<lambda>t. rnd (fl_exp (rnd (fl_sub (Fin (add_row_constant c u ! i ! j))
                  (if j + t < length (add_row_constant c u ! i)
                   then Fin (stable_max_row n (add_row_constant c u ! i) (j + t))
                   else PosInf))))) [0 ..< Suc n]
        = map (\<lambda>t. rnd (fl_exp (rnd (fl_sub (Fin (u ! i ! j))
                  (if j + t < length (u ! i)
                   then Fin (stable_max_row n (u ! i) (j + t))
                   else PosInf))))) [0 ..< Suc n]"
    unfolding nth_add_row_constant[OF i]
    by (rule map_cong[OF refl]) (use j in \<open>simp add: stable_max_row_shift\<close>)
qed

lemma stable_framed_denominators_rnd_shift:
  "stable_framed_denominators_rnd rnd n (add_row_constant c u)
   = stable_framed_denominators_rnd rnd n u"
  unfolding stable_framed_denominators_rnd_def shape_add_row_constant
proof (rule tab_cong[OF refl])
  fix i j
  assume "i < length (shape u)" and "j < shape u ! i"
  then have i: "i < length u"
    by (simp add: shape_def)
  show "map (\<lambda>t. if j + t < length (add_row_constant c u ! i)
                  then stable_den_rnd rnd n (add_row_constant c u ! i) (j + t)
                  else PosInf) [0 ..< Suc n]
        = map (\<lambda>t. if j + t < length (u ! i)
                    then stable_den_rnd rnd n (u ! i) (j + t)
                    else PosInf) [0 ..< Suc n]"
    unfolding nth_add_row_constant[OF i]
    by (rule map_cong[OF refl]) (simp add: stable_den_rnd_shift)
qed

lemma stable_rnd_nonpositive:
  "chunk_size \<le> 0 \<Longrightarrow> stable_chunkwise_attention_rnd rnd chunk_size e x = Inl InvalidArgument"
  by (simp add: stable_chunkwise_attention_rnd_def moving_max_nonpositive)

lemma stable_rnd_shift:
  assumes "list_all (list_all is_f32) u" and "list_all (list_all is_f32) (add_row_constant c u)"
  shows "stable_chunkwise_attention_rnd fl_round chunk_size e (lift (add_row_constant c u))
         = stable_chunkwise_attention_rnd fl_round chunk_size e (lift u)"
proof (cases "chunk_size \<le> 0")
  case True
  then show ?thesis
    by (simp add: stable_rnd_nonpositive)
next
  case False
  then have "chunk_size = int (Suc (nat chunk_size - 1))"
    by simp
  then obtain n where n: "chunk_size = int (Suc n)" ..
  show ?thesis
    unfolding n
    by (simp only: stable_rnd_split[of _ fl_round, OF list_all2_is_f32[OF assms(1)]]
          stable_rnd_split[of _ fl_round, OF list_all2_is_f32[OF assms(2)]]
          stable_numerators_rnd_shift stable_framed_denominators_rnd_shift)
qed

text \<open>
  Claim C9, as amended. In float32, when the logits and the shifted logits are float32
  numbers, so that the shifted logits are exactly the logits plus the constant of their batch
  row, the shift changes the result of neither \<open>efficient_chunkwise_attention\<close> nor
  \<open>stable_chunkwise_attention\<close>, whatever the chunk size and \<open>emit_probs\<close> are.
\<close>

theorem attention_invariant_under_exact_row_shift:
  assumes "list_all (list_all is_f32) u" and "list_all (list_all is_f32) (add_row_constant c u)"
  shows "efficient_chunkwise_attention_rnd fl_round chunk_size e (lift (add_row_constant c u))
           = efficient_chunkwise_attention_rnd fl_round chunk_size e (lift u)
         \<and> stable_chunkwise_attention_rnd fl_round chunk_size e (lift (add_row_constant c u))
           = stable_chunkwise_attention_rnd fl_round chunk_size e (lift u)"
  using stable_rnd_shift[OF assms]
  by (simp add: efficient_chunkwise_attention_rnd_def efficient_softmax_exp_rnd_shift)

theorem attention_invariant_under_exact_row_shift_witness:
  "list_all (list_all is_f32) [[0, 1]]
   \<and> list_all (list_all is_f32) (add_row_constant (\<lambda>i. 2) [[0, 1]])
   \<and> efficient_chunkwise_attention_rnd fl_round 2 (lift [[1/4, 3/4]])
         (lift (add_row_constant (\<lambda>i. 2) [[0, 1]]))
       = efficient_chunkwise_attention_rnd fl_round 2 (lift [[1/4, 3/4]]) (lift [[0, 1]])
   \<and> stable_chunkwise_attention_rnd fl_round 2 (lift [[1/4, 3/4]])
         (lift (add_row_constant (\<lambda>i. 2) [[0, 1]]))
       = stable_chunkwise_attention_rnd fl_round 2 (lift [[1/4, 3/4]]) (lift [[0, 1]])"
proof -
  have shifted: "add_row_constant (\<lambda>i. 2) [[0, 1]] = [[2, 3]]"
    by (simp add: add_row_constant_def)
  have fu: "list_all (list_all is_f32) [[0, 1]]"
    by code_simp
  have "list_all (list_all is_f32) [[2, 3]]"
    by code_simp
  then have fs: "list_all (list_all is_f32) (add_row_constant (\<lambda>i. 2) [[0, 1]])"
    by (simp only: shifted)
  from attention_invariant_under_exact_row_shift[OF fu fs, of 2 "lift [[1/4, 3/4]]"] fu fs
  show ?thesis
    by blast
qed

lemma unclamped_softmax_exp:
  "efficient_softmax_exp_rnd fl_round (lift [[10 ^ 10, 10 ^ 10]]) = Inr [[Fin 1, Fin 1]]"
proof -
  have shifted: "elementwise2 (rounded fl_round fl_sub) (lift [[10 ^ 10, 10 ^ 10]])
                   (reduce_max_keepdims (lift [[10 ^ 10, 10 ^ 10]])) = Inr [[Fin 0, Fin 0]]"
    by code_simp
  have floor: "f32 clamp_floor = Fin (10995116 / 2 ^ 40)"
    by code_simp
  show ?thesis
    unfolding efficient_softmax_exp_rnd_def shifted bind_result_Inr
    by (simp add: floor)
qed

text \<open>
  Claim C9, as stated, fails in float32: adding the constant \<open>1e10\<close> to the float32 logits
  \<open>[[0, -32]]\<close> gives \<open>[[1e10, 1e10]]\<close>, because \<open>1e10 - 32\<close> rounds to \<open>1e10\<close>, and the efficient
  variant with \<open>chunk_size = 2\<close> returns \<open>[[5/8, 3/8]]\<close> on the shifted logits and another array
  on the original ones.
\<close>

theorem rounded_row_shift_changes_attention:
  "list_all is_f32 [0, - 32, 10 ^ 10, 1 / 4, 3 / 4]
   \<and> elementwise2 (rounded fl_round fl_add) (lift [[0, - 32]]) (lift [[10 ^ 10]])
       = Inr (lift [[10 ^ 10, 10 ^ 10]])
   \<and> efficient_chunkwise_attention_rnd fl_round 2 (lift [[1 / 4, 3 / 4]]) (lift [[0, - 32]])
       = Inr (lift [[8388545 / 8388608, 16492509 / 2199023255552]])
   \<and> efficient_chunkwise_attention_rnd fl_round 2 (lift [[1 / 4, 3 / 4]])
         (lift [[10 ^ 10, 10 ^ 10]])
       = Inr (lift [[5 / 8, 3 / 8]])"
proof (intro conjI)
  show "list_all is_f32 [0, - 32, 10 ^ 10, 1 / 4, 3 / 4]"
    by code_simp
  show "elementwise2 (rounded fl_round fl_add) (lift [[0, - 32]]) (lift [[10 ^ 10]])
        = Inr (lift [[10 ^ 10, 10 ^ 10]])"
    by code_simp
  show "efficient_chunkwise_attention_rnd fl_round 2 (lift [[1 / 4, 3 / 4]]) (lift [[0, - 32]])
        = Inr (lift [[8388545 / 8388608, 16492509 / 2199023255552]])"
    unfolding efficient_chunkwise_attention_rnd_def clamped_softmax_exp bind_result_Inr
    by code_simp
  show "efficient_chunkwise_attention_rnd fl_round 2 (lift [[1 / 4, 3 / 4]])
          (lift [[10 ^ 10, 10 ^ 10]])
        = Inr (lift [[5 / 8, 3 / 8]])"
    unfolding efficient_chunkwise_attention_rnd_def unclamped_softmax_exp bind_result_Inr
    by code_simp
qed

section \<open>Shapes, ranks and the errors of broadcasting\<close>

lemma sequence_all_Inl:
  assumes "rs \<noteq> []" and "\<And>r. r \<in> set rs \<Longrightarrow> r = Inl InvalidArgument"
  shows "sequence rs = Inl InvalidArgument"
proof (cases rs)
  case Nil
  with assms(1) show ?thesis by simp
next
  case (Cons r rs')
  then have "r = Inl InvalidArgument"
    using assms(2)[of r] by simp
  with Cons show ?thesis by simp
qed

lemma broadcast_not_broadcastable:
  "\<not> broadcastable (length xs) (length ys) \<Longrightarrow> broadcast f xs ys = Inl InvalidArgument"
  by (simp add: broadcast_def broadcastable_def)

lemma broadcast_all_Inl:
  assumes "xs \<noteq> []" and "ys \<noteq> []"
    and "\<And>x y. x \<in> set xs \<Longrightarrow> y \<in> set ys \<Longrightarrow> f x y = Inl InvalidArgument"
  shows "broadcast f xs ys = Inl InvalidArgument"
proof -
  have hd: "hd xs \<in> set xs" "hd ys \<in> set ys"
    using assms(1,2) by simp_all
  have 1: "sequence (map2 f xs ys) = Inl InvalidArgument"
    by (rule sequence_all_Inl) (use assms in \<open>auto dest: set_zip_leftD set_zip_rightD\<close>)
  have 2: "sequence (map (f (hd xs)) ys) = Inl InvalidArgument"
    by (rule sequence_all_Inl) (use assms hd in auto)
  have 3: "sequence (map (\<lambda>x. f x (hd ys)) xs) = Inl InvalidArgument"
    by (rule sequence_all_Inl) (use assms hd in auto)
  show ?thesis
    by (simp add: broadcast_def 1 2 3)
qed

lemma broadcast2_incompatible:
  assumes "rectangular b' t' X" and "rectangular b t Y" and "0 < b'" and "0 < b"
    and "\<not> broadcastable b' b \<or> \<not> broadcastable t' t"
  shows "broadcast (broadcast f) X Y = Inl InvalidArgument"
proof (cases "broadcastable b' b")
  case False
  with assms(1,2) show ?thesis
    by (intro broadcast_not_broadcastable) (simp add: rectangular_def)
next
  case True
  with assms(5) have inner: "\<not> broadcastable t' t"
    by simp
  show ?thesis
  proof (rule broadcast_all_Inl)
    show "X \<noteq> []" and "Y \<noteq> []"
      using assms(1-4) by (auto simp: rectangular_def)
  next
    fix x y
    assume "x \<in> set X" and "y \<in> set Y"
    with assms(1,2) have "length x = t'" and "length y = t"
      by (auto simp: rectangular_def list_all_iff)
    with inner show "broadcast f x y = Inl InvalidArgument"
      by (intro broadcast_not_broadcastable) simp
  qed
qed

lemma rectangular_lift: "rectangular b t (lift x) = rectangular b t x"
  by (simp add: rectangular_def lift_def list_all_iff)

lemma rectangular_tab:
  "rectangular b t x \<Longrightarrow> rectangular b t (tab (shape x) F)"
  by (auto simp: rectangular_def tab_def shape_def list_all_iff)

lemma rectangular_frame:
  "rectangular b t x \<Longrightarrow> rectangular b t (frame x w True v)"
  by (auto simp: rectangular_def frame_def list_all_iff)

lemma sequence_total:
  assumes "\<And>r. r \<in> set rs \<Longrightarrow> \<exists>z. r = Inr z \<and> P z"
  shows "\<exists>zs. sequence rs = Inr zs \<and> length zs = length rs \<and> list_all P zs"
  using assms
proof (induction rs)
  case Nil
  then show ?case by simp
next
  case (Cons r rs)
  then obtain z where z: "r = Inr z" "P z"
    by auto
  from Cons obtain zs where "sequence rs = Inr zs" "length zs = length rs" "list_all P zs"
    by auto
  with z show ?case
    by simp
qed

lemma broadcast_total:
  assumes "broadcastable (length xs) (length ys)"
    and "\<And>x y. x \<in> set xs \<Longrightarrow> y \<in> set ys \<Longrightarrow> \<exists>z. f x y = Inr z \<and> P z"
  shows "\<exists>zs. broadcast f xs ys = Inr zs
              \<and> length zs = broadcast_size (length xs) (length ys) \<and> list_all P zs"
proof -
  consider (same) "length xs = length ys"
    | (left) "length xs \<noteq> length ys" "length xs = 1"
    | (right) "length xs \<noteq> length ys" "length xs \<noteq> 1" "length ys = 1"
    using assms(1)
    by (cases "length xs = length ys"; cases "length xs = 1") (auto simp: broadcastable_def)
  then show ?thesis
  proof cases
    case same
    have "\<exists>zs. sequence (map2 f xs ys) = Inr zs \<and> length zs = length (map2 f xs ys)
                \<and> list_all P zs"
      by (rule sequence_total) (use assms(2) in \<open>auto dest: set_zip_leftD set_zip_rightD\<close>)
    with same show ?thesis
      by (simp add: broadcast_def broadcast_size_def)
  next
    case left
    then have "hd xs \<in> set xs"
      by (cases xs) auto
    then have "\<exists>zs. sequence (map (f (hd xs)) ys) = Inr zs
                \<and> length zs = length (map (f (hd xs)) ys) \<and> list_all P zs"
      by (intro sequence_total) (use assms(2) in auto)
    with left show ?thesis
      by (simp add: broadcast_def broadcast_size_def)
  next
    case right
    then have "hd ys \<in> set ys"
      by (cases ys) auto
    then have "\<exists>zs. sequence (map (\<lambda>x. f x (hd ys)) xs) = Inr zs
                \<and> length zs = length (map (\<lambda>x. f x (hd ys)) xs) \<and> list_all P zs"
      by (intro sequence_total) (use assms(2) in auto)
    with right show ?thesis
      by (simp add: broadcast_def broadcast_size_def)
  qed
qed

lemma broadcast_same_size:
  assumes "length x = w" and "length y = w"
  shows "\<exists>z. broadcast (\<lambda>a b. Inr (op a b)) x y = Inr z \<and> length z = w"
proof -
  have "\<exists>zs. broadcast (\<lambda>a b. Inr (op a b)) x y = Inr zs
             \<and> length zs = broadcast_size (length x) (length y) \<and> list_all (\<lambda>_. True) zs"
    by (rule broadcast_total) (use assms in \<open>auto simp: broadcastable_def\<close>)
  then show ?thesis
    using assms by (auto simp: broadcast_size_def)
qed

lemma elementwise2_total:
  assumes "rectangular b1 t1 X" and "rectangular b2 t2 Y"
    and "broadcastable b1 b2" and "broadcastable t1 t2"
  shows "\<exists>Z. elementwise2 op X Y = Inr Z
             \<and> rectangular (broadcast_size b1 b2) (broadcast_size t1 t2) Z"
proof -
  have "\<exists>Z. broadcast (broadcast (\<lambda>a b. Inr (op a b))) X Y = Inr Z
             \<and> length Z = broadcast_size (length X) (length Y)
             \<and> list_all (\<lambda>z. length z = broadcast_size t1 t2) Z"
  proof (rule broadcast_total)
    show "broadcastable (length X) (length Y)"
      using assms by (simp add: rectangular_def)
  next
    fix x y
    assume "x \<in> set X" and "y \<in> set Y"
    with assms(1,2) have len: "length x = t1" "length y = t2"
      by (auto simp: rectangular_def list_all_iff)
    have "\<exists>z. broadcast (\<lambda>a b. Inr (op a b)) x y = Inr z
               \<and> length z = broadcast_size (length x) (length y) \<and> list_all (\<lambda>_. True) z"
      by (rule broadcast_total) (use assms(4) len in auto)
    with len show "\<exists>z. broadcast (\<lambda>a b. Inr (op a b)) x y = Inr z
                       \<and> length z = broadcast_size t1 t2"
      by auto
  qed
  with assms(1,2) show ?thesis
    by (auto simp: elementwise2_def rectangular_def)
qed

lemma elementwise3_total:
  assumes "rectangular3 b1 t1 w1 X" and "rectangular3 b2 t2 w2 Y"
    and "broadcastable b1 b2" and "broadcastable t1 t2" and "broadcastable w1 w2"
  shows "\<exists>Z. elementwise3 op X Y = Inr Z
             \<and> rectangular3 (broadcast_size b1 b2) (broadcast_size t1 t2) (broadcast_size w1 w2) Z"
proof -
  let ?Q = "\<lambda>fr :: fl list. length fr = broadcast_size w1 w2"
  let ?P = "\<lambda>row. length row = broadcast_size t1 t2 \<and> list_all ?Q row"
  have "\<exists>Z. broadcast (broadcast (broadcast (\<lambda>a b. Inr (op a b)))) X Y = Inr Z
             \<and> length Z = broadcast_size (length X) (length Y) \<and> list_all ?P Z"
  proof (rule broadcast_total)
    show "broadcastable (length X) (length Y)"
      using assms by (simp add: rectangular3_def)
  next
    fix x y
    assume "x \<in> set X" and "y \<in> set Y"
    with assms(1,2) have len: "length x = t1" "length y = t2"
      and fr: "\<And>p. p \<in> set x \<Longrightarrow> length p = w1" "\<And>p. p \<in> set y \<Longrightarrow> length p = w2"
      by (auto simp: rectangular3_def list_all_iff)
    have "\<exists>z. broadcast (broadcast (\<lambda>a b. Inr (op a b))) x y = Inr z
               \<and> length z = broadcast_size (length x) (length y) \<and> list_all ?Q z"
    proof (rule broadcast_total)
      show "broadcastable (length x) (length y)"
        using assms(4) len by simp
    next
      fix p q
      assume "p \<in> set x" and "q \<in> set y"
      with fr have pq: "length p = w1" "length q = w2"
        by auto
      have "\<exists>z. broadcast (\<lambda>a b. Inr (op a b)) p q = Inr z
                 \<and> length z = broadcast_size (length p) (length q) \<and> list_all (\<lambda>_. True) z"
        by (rule broadcast_total) (use assms(5) pq in auto)
      with pq show "\<exists>z. broadcast (\<lambda>a b. Inr (op a b)) p q = Inr z \<and> ?Q z"
        by auto
    qed
    with len show "\<exists>z. broadcast (broadcast (\<lambda>a b. Inr (op a b))) x y = Inr z \<and> ?P z"
      by auto
  qed
  with assms(1,2) show ?thesis
    by (auto simp: elementwise3_def rectangular3_def)
qed

lemma broadcast_size_simps [simp]:
  "broadcast_size n n = n" "broadcast_size n 1 = n" "broadcast_size 1 n = n"
  "broadcast_size n (Suc 0) = n" "broadcast_size (Suc 0) n = n"
  by (simp_all add: broadcast_size_def)

lemma broadcastable_simps [simp]:
  "broadcastable n n" "broadcastable n 1" "broadcastable 1 n"
  "broadcastable n (Suc 0)" "broadcastable (Suc 0) n"
  by (simp_all add: broadcastable_def)

lemma broadcast_size_absorb:
  assumes "broadcastable m n"
  shows "broadcastable n (broadcast_size m n)"
    and "broadcast_size n (broadcast_size m n) = broadcast_size m n"
    and "broadcastable (broadcast_size m n) n"
    and "broadcast_size (broadcast_size m n) n = broadcast_size m n"
  using assms by (auto simp: broadcastable_def broadcast_size_def)

lemma rectangular_map_map: "rectangular b t x \<Longrightarrow> rectangular b t (map (map f) x)"
  by (simp add: rectangular_def list_all_iff)

lemma rectangular3_map: "rectangular3 b t w x \<Longrightarrow> rectangular3 b t w (map (map (map f)) x)"
  by (simp add: rectangular3_def list_all_iff)

lemma rectangular3_reduce: "rectangular3 b t w x \<Longrightarrow> rectangular b t (map (map f) x)"
  by (simp add: rectangular3_def rectangular_def list_all_iff)

lemma rectangular3_rectangular: "rectangular3 b t w x \<Longrightarrow> rectangular b t x"
  by (simp add: rectangular3_def rectangular_def list_all_iff)

lemma rectangular3_expand_dims: "rectangular b t x \<Longrightarrow> rectangular3 b t 1 (expand_dims x)"
  by (simp add: rectangular3_def rectangular_def expand_dims_def list_all_iff)

lemma rectangular3_tf_ones_like3: "rectangular b t x \<Longrightarrow> rectangular3 b t w (tf_ones_like3 x w)"
  by (simp add: rectangular3_def rectangular_def tf_ones_like3_def list_all_iff)

lemma rectangular3_frame_pad_end:
  "rectangular b t x \<Longrightarrow> rectangular3 b t (Suc n) (frame x (Suc n) True v)"
  by (auto simp: rectangular3_def rectangular_def frame_def list_all_iff)

lemma rectangular3_frame:
  "rectangular b (n + t) x \<Longrightarrow> rectangular3 b t (Suc n) (frame x (Suc n) False v)"
  by (auto simp: rectangular3_def rectangular_def frame_def list_all_iff)

lemma tf_pad_rectangular:
  assumes "rectangular b t x"
  shows "\<exists>y. tf_pad x (int p) (int q) v = Inr y \<and> rectangular b (p + t + q) y"
  using assms by (simp add: tf_pad_def rectangular_def list_all_iff)

lemma moving_sum_rnd_rectangular:
  assumes "rectangular b t x"
  shows "\<exists>y. moving_sum_rnd rnd x (int p) (int q) = Inr y \<and> rectangular b t y"
proof -
  have "nat (int p + int q + 1) = Suc (p + q)"
    by simp
  with assms show ?thesis
    by (simp add: moving_sum_rnd_def tf_pad_def conv1d_valid_rnd_def rectangular_def
        list_all_iff Let_def)
qed

lemma moving_max_rectangular:
  assumes "rectangular b t x"
  shows "\<exists>y. moving_max x (int (Suc n)) = Inr y \<and> rectangular b t y"
proof -
  have "nat (1 + int n) = Suc n"
    by simp
  with assms show ?thesis
    by (simp add: moving_max_def tf_pad_def max_pool_valid_def rectangular_def list_all_iff)
qed

lemma efficient_softmax_exp_rnd_rectangular:
  assumes "rectangular b t u"
  shows "\<exists>s. efficient_softmax_exp_rnd rnd u = Inr s \<and> rectangular b t s"
  using efficient_softmax_exp_rnd_tab[of rnd "shape u" "\<lambda>i j. u ! i ! j"] assms
  by (simp add: tab_shape rectangular_tab)

lemma efficient_rnd_nonpositive:
  assumes "chunk_size \<le> 0"
  shows "efficient_chunkwise_attention_rnd rnd chunk_size e x = Inl InvalidArgument"
proof -
  obtain s where "efficient_softmax_exp_rnd rnd x = Inr s"
    using efficient_softmax_exp_rnd_tab[of rnd "shape x" "\<lambda>i j. x ! i ! j"]
    by (simp add: tab_shape)
  then show ?thesis
    using assms
    by (simp add: efficient_chunkwise_attention_rnd_def moving_sum_rnd_def tf_pad_def)
qed

lemma efficient_rnd_shapes:
  assumes a: "rectangular b' t' a" and u: "rectangular b t u"
  shows "\<exists>s d. rectangular b t s \<and> rectangular b t d
           \<and> efficient_chunkwise_attention_rnd rnd (int (Suc n)) a u
             = bind_result (elementwise2 (rounded rnd fl_div) a d) (\<lambda>quotient.
               bind_result (moving_sum_rnd rnd quotient (int 0) (int n)) (\<lambda>summed.
                 elementwise2 (rounded rnd fl_mul) s summed))"
proof -
  obtain s where s: "efficient_softmax_exp_rnd rnd u = Inr s" "rectangular b t s"
    using efficient_softmax_exp_rnd_rectangular[OF u] by blast
  obtain d where d: "moving_sum_rnd rnd s (int n) (int 0) = Inr d" "rectangular b t d"
    using moving_sum_rnd_rectangular[OF s(2)] by blast
  have "efficient_chunkwise_attention_rnd rnd (int (Suc n)) a u
        = bind_result (elementwise2 (rounded rnd fl_div) a d) (\<lambda>quotient.
          bind_result (moving_sum_rnd rnd quotient (int 0) (int n)) (\<lambda>summed.
            elementwise2 (rounded rnd fl_mul) s summed))"
    using s(1) d(1) by (simp add: efficient_chunkwise_attention_rnd_def)
  with s(2) d(2) show ?thesis
    by blast
qed

lemma efficient_rnd_incompatible:
  assumes "rectangular b' t' a" and "rectangular b t u" and "0 < b'" and "0 < b"
    and "\<not> broadcastable b' b \<or> \<not> broadcastable t' t"
  shows "efficient_chunkwise_attention_rnd rnd (int (Suc n)) a u = Inl InvalidArgument"
proof -
  obtain s d where d: "rectangular b t d"
    and eq: "efficient_chunkwise_attention_rnd rnd (int (Suc n)) a u
             = bind_result (elementwise2 (rounded rnd fl_div) a d) (\<lambda>quotient.
               bind_result (moving_sum_rnd rnd quotient (int 0) (int n)) (\<lambda>summed.
                 elementwise2 (rounded rnd fl_mul) s summed))"
    using efficient_rnd_shapes[OF assms(1,2)] by blast
  have "elementwise2 (rounded rnd fl_div) a d = Inl InvalidArgument"
    unfolding elementwise2_def
    by (rule broadcast2_incompatible[OF assms(1) d assms(3,4,5)])
  then show ?thesis
    unfolding eq by (simp only: bind_result_Inl)
qed

lemma efficient_rnd_compatible:
  assumes "rectangular b' t' a" and "rectangular b t u"
    and "broadcastable b' b" and "broadcastable t' t"
  shows "\<exists>y. efficient_chunkwise_attention_rnd rnd (int (Suc n)) a u = Inr y
             \<and> rectangular (broadcast_size b' b) (broadcast_size t' t) y"
proof -
  obtain s d where s: "rectangular b t s" and d: "rectangular b t d"
    and eq: "efficient_chunkwise_attention_rnd rnd (int (Suc n)) a u
             = bind_result (elementwise2 (rounded rnd fl_div) a d) (\<lambda>quotient.
               bind_result (moving_sum_rnd rnd quotient (int 0) (int n)) (\<lambda>summed.
                 elementwise2 (rounded rnd fl_mul) s summed))"
    using efficient_rnd_shapes[OF assms(1,2)] by blast
  obtain q where q: "elementwise2 (rounded rnd fl_div) a d = Inr q"
      "rectangular (broadcast_size b' b) (broadcast_size t' t) q"
    using elementwise2_total[OF assms(1) d assms(3,4)] by blast
  obtain r where r: "moving_sum_rnd rnd q (int 0) (int n) = Inr r"
      "rectangular (broadcast_size b' b) (broadcast_size t' t) r"
    using moving_sum_rnd_rectangular[OF q(2)] by blast
  obtain y where y: "elementwise2 (rounded rnd fl_mul) s r = Inr y"
      "rectangular (broadcast_size b (broadcast_size b' b))
         (broadcast_size t (broadcast_size t' t)) y"
    using elementwise2_total[OF s r(2) broadcast_size_absorb(1)[OF assms(3)]
        broadcast_size_absorb(1)[OF assms(4)]] by blast
  from y(2) have "rectangular (broadcast_size b' b) (broadcast_size t' t) y"
    by (simp only: broadcast_size_absorb(2)[OF assms(3)] broadcast_size_absorb(2)[OF assms(4)])
  with q(1) r(1) y(1) show ?thesis
    unfolding eq by simp
qed

lemma stable_rnd_shapes:
  assumes a: "rectangular b' t' a" and u: "rectangular b t u"
  shows "\<exists>num den. rectangular3 b t (Suc n) num \<and> rectangular3 b t (Suc n) den
           \<and> stable_chunkwise_attention_rnd rnd (int (Suc n)) a u
             = bind_result (elementwise3 (rounded rnd fl_mul) (frame a (Suc n) True (Fin 0)) num)
                 (\<lambda>product.
               bind_result (elementwise3 (rounded rnd fl_div) product den) (\<lambda>terms.
                 Inr (map (map (reduce_sum_rnd rnd)) terms)))"
proof -
  have w: "int (Suc n) - 1 = int n" "nat (int (Suc n)) = Suc n"
    by simp_all
  obtain m where m: "moving_max u (int (Suc n)) = Inr m" "rectangular b t m"
    using moving_max_rectangular[OF u] by blast
  obtain p where p: "tf_pad u (int n) (int 0) NegInf = Inr p" "rectangular b (n + t + 0) p"
    using tf_pad_rectangular[OF u] by blast
  then have p': "tf_pad u (int n) 0 NegInf = Inr p" "rectangular b (n + t) p"
    by simp_all
  obtain fl where fl: "elementwise3 (rounded rnd fl_sub) (frame p (Suc n) False (Fin 0))
                         (expand_dims m) = Inr fl"
      "rectangular3 (broadcast_size b b) (broadcast_size t t) (broadcast_size (Suc n) 1) fl"
    using elementwise3_total[OF rectangular3_frame[OF p'(2)] rectangular3_expand_dims[OF m(2)]]
    by (metis broadcastable_simps(1,2))
  then have fl': "rectangular3 b t (Suc n) fl"
    by simp
  let ?den = "map (map (\<lambda>fr. reduce_sum_rnd rnd (map (\<lambda>v. rnd (fl_exp v)) fr))) fl"
  have den: "rectangular3 b t (Suc n) (frame ?den (Suc n) True PosInf)"
    by (intro rectangular3_frame_pad_end rectangular3_reduce) (rule fl')
  obtain cl where cl: "elementwise3 (rounded rnd fl_mul) (expand_dims u)
                         (tf_ones_like3 u (Suc n)) = Inr cl"
      "rectangular3 (broadcast_size b b) (broadcast_size t t) (broadcast_size 1 (Suc n)) cl"
    using elementwise3_total[OF rectangular3_expand_dims[OF u]
        rectangular3_tf_ones_like3[OF u, of "Suc n"]]
    by (metis broadcastable_simps(1,3))
  then have cl': "rectangular3 b t (Suc n) cl"
    by simp
  obtain cl2 where cl2: "elementwise3 (rounded rnd fl_sub) cl (frame m (Suc n) True PosInf)
                         = Inr cl2"
      "rectangular3 (broadcast_size b b) (broadcast_size t t)
         (broadcast_size (Suc n) (Suc n)) cl2"
    using elementwise3_total[OF cl' rectangular3_frame_pad_end[OF m(2)]]
    by (metis broadcastable_simps(1))
  then have num: "rectangular3 b t (Suc n) (map (map (map (\<lambda>v. rnd (fl_exp v)))) cl2)"
    by (intro rectangular3_map) simp
  have "stable_chunkwise_attention_rnd rnd (int (Suc n)) a u
        = bind_result (elementwise3 (rounded rnd fl_mul) (frame a (Suc n) True (Fin 0))
                         (map (map (map (\<lambda>v. rnd (fl_exp v)))) cl2))
            (\<lambda>product.
          bind_result (elementwise3 (rounded rnd fl_div) product
                         (frame ?den (Suc n) True PosInf)) (\<lambda>terms.
            Inr (map (map (reduce_sum_rnd rnd)) terms)))"
    unfolding stable_chunkwise_attention_rnd_def w m(1) p'(1) bind_result_Inr Let_def
      fl(1) cl(1) cl2(1)
    by (rule refl)
  with num den show ?thesis
    by blast
qed

lemma stable_rnd_incompatible:
  assumes "rectangular b' t' a" and "rectangular b t u" and "0 < b'" and "0 < b"
    and "\<not> broadcastable b' b \<or> \<not> broadcastable t' t"
  shows "stable_chunkwise_attention_rnd rnd (int (Suc n)) a u = Inl InvalidArgument"
proof -
  obtain num den where num: "rectangular3 b t (Suc n) num"
    and eq: "stable_chunkwise_attention_rnd rnd (int (Suc n)) a u
             = bind_result (elementwise3 (rounded rnd fl_mul) (frame a (Suc n) True (Fin 0)) num)
                 (\<lambda>product.
               bind_result (elementwise3 (rounded rnd fl_div) product den) (\<lambda>terms.
                 Inr (map (map (reduce_sum_rnd rnd)) terms)))"
    using stable_rnd_shapes[OF assms(1,2)] by blast
  have "elementwise3 (rounded rnd fl_mul) (frame a (Suc n) True (Fin 0)) num
        = Inl InvalidArgument"
    unfolding elementwise3_def
    by (rule broadcast2_incompatible[OF rectangular_frame[OF assms(1)]
          rectangular3_rectangular[OF num] assms(3,4,5)])
  then show ?thesis
    unfolding eq by (simp only: bind_result_Inl)
qed

lemma stable_rnd_compatible:
  assumes "rectangular b' t' a" and "rectangular b t u"
    and "broadcastable b' b" and "broadcastable t' t"
  shows "\<exists>y. stable_chunkwise_attention_rnd rnd (int (Suc n)) a u = Inr y
             \<and> rectangular (broadcast_size b' b) (broadcast_size t' t) y"
proof -
  obtain num den where num: "rectangular3 b t (Suc n) num"
    and den: "rectangular3 b t (Suc n) den"
    and eq: "stable_chunkwise_attention_rnd rnd (int (Suc n)) a u
             = bind_result (elementwise3 (rounded rnd fl_mul) (frame a (Suc n) True (Fin 0)) num)
                 (\<lambda>product.
               bind_result (elementwise3 (rounded rnd fl_div) product den) (\<lambda>terms.
                 Inr (map (map (reduce_sum_rnd rnd)) terms)))"
    using stable_rnd_shapes[OF assms(1,2)] by blast
  obtain pr where pr: "elementwise3 (rounded rnd fl_mul) (frame a (Suc n) True (Fin 0)) num
                       = Inr pr"
      "rectangular3 (broadcast_size b' b) (broadcast_size t' t)
         (broadcast_size (Suc n) (Suc n)) pr"
    using elementwise3_total[OF rectangular3_frame_pad_end[OF assms(1)] num assms(3,4)]
    by (metis broadcastable_simps(1))
  then have pr': "rectangular3 (broadcast_size b' b) (broadcast_size t' t) (Suc n) pr"
    by simp
  obtain te where te: "elementwise3 (rounded rnd fl_div) pr den = Inr te"
      "rectangular3 (broadcast_size (broadcast_size b' b) b)
         (broadcast_size (broadcast_size t' t) t) (broadcast_size (Suc n) (Suc n)) te"
    using elementwise3_total[OF pr' den broadcast_size_absorb(3)[OF assms(3)]
        broadcast_size_absorb(3)[OF assms(4)]]
    by (metis broadcastable_simps(1))
  then have "rectangular3 (broadcast_size b' b) (broadcast_size t' t) (Suc n) te"
    by (simp add: broadcast_size_absorb(4)[OF assms(3)] broadcast_size_absorb(4)[OF assms(4)])
  then have "rectangular (broadcast_size b' b) (broadcast_size t' t)
               (map (map (reduce_sum_rnd rnd)) te)"
    by (rule rectangular3_reduce)
  with pr(1) te(1) show ?thesis
    unfolding eq by simp
qed

lemma f32_values:
  "f32 2 = Fin 2" "f32 (1/2) = Fin (1/2)" "f32 (1/4) = Fin (1/4)" "f32 (3/4) = Fin (3/4)"
  "f32 (1/8) = Fin (1/8)" "f32 (3/8) = Fin (3/8)" "f32 (5/8) = Fin (5/8)"
  "f32 clamp_floor = Fin (10995116 / 2 ^ 40)"
  by code_simp+




end
